theory Spec2Isabelle
  imports Main "HOL-Library.Word" "HOL-Library.Monad_Syntax"
begin

unbundle bit_operations_syntax

section \<open>Data model (Objects/dict-common.h, Objects/odictobject.c)\<close>

text \<open>
  Object references (\<^verbatim>\<open>PyObject *\<close>) are addresses; \<^verbatim>\<open>NULL\<close> is address 0.
  \<^verbatim>\<open>Py_ssize_t\<close> quantities (sizes, counts, entry indices) are integers;
  \<^verbatim>\<open>Py_hash_t\<close> and \<^verbatim>\<open>size_t\<close> are 64-bit words, so that the casts, shifts and the
  wrap-around of the probe arithmetic and of \<^verbatim>\<open>od_state++\<close> are those of the C code
  (64-bit build, \<^verbatim>\<open>SIZEOF_VOID_P > 4\<close>).
\<close>

type_synonym pyobj = nat

abbreviation NULL :: pyobj where
  "NULL \<equiv> 0"

type_synonym Py_hash_t = "64 word"
type_synonym size_t = "64 word"

record PyDictKeyEntry =
  me_hash :: Py_hash_t
  me_key :: pyobj
  me_value :: pyobj

definition PERTURB_SHIFT :: nat where
  "PERTURB_SHIFT = 5"

definition DKIX_EMPTY :: int where
  "DKIX_EMPTY = -1"

definition DKIX_DUMMY :: int where
  "DKIX_DUMMY = -2"

definition DKIX_ERROR :: int where
  "DKIX_ERROR = -3"

text \<open>
  \<^verbatim>\<open>struct _dictkeysobject\<close>. The keys object is owned by exactly one ordered dictionary
  (\<^verbatim>\<open>ma_values == NULL\<close> is asserted by the iterator), so it is held by value; its
  address, which the iterator compares (\<^verbatim>\<open>dk != di->di_keys\<close>), is the field
  \<open>dk_addr\<close>. \<open>dk_indices\<close> is the hash index, \<open>dk_entries\<close> the entry array that
  follows it in memory (\<^verbatim>\<open>DK_ENTRIES\<close>).
\<close>

record PyDictKeysObject =
  dk_addr :: nat
  dk_size :: int
  dk_usable :: int
  dk_nentries :: int
  dk_indices :: "int list"
  dk_entries :: "PyDictKeyEntry list"

record PyDictObject =
  ma_used :: int
  ma_offset :: int
  ma_keys :: PyDictKeysObject

text \<open>\<^verbatim>\<open>struct _odictobject\<close>: the underlying dict and the state counter (a \<^verbatim>\<open>size_t\<close>).\<close>

record PyODictObject =
  od_dict :: PyDictObject
  od_state :: size_t

definition DK_MASK :: "PyDictKeysObject \<Rightarrow> size_t" where
  "DK_MASK dk = word_of_int (dk_size dk - 1)"

definition GROWTH_RATE :: "PyDictObject \<Rightarrow> int" where
  "GROWTH_RATE d = ma_used d * 2 + drop_bit 1 (dk_size (ma_keys d))"

definition odict_EMPTY :: "PyODictObject \<Rightarrow> bool" where
  "odict_EMPTY od = (ma_used (od_dict od) = 0)"

definition PyODict_SIZE :: "PyODictObject \<Rightarrow> int" where
  "PyODict_SIZE od = ma_used (od_dict od)"

subsection \<open>Reading and writing the hash index\<close>

text \<open>
  \<^verbatim>\<open>dk_get_index\<close> reads cell \<open>i\<close> through the view chosen by \<open>dk_size\<close>; the cells of
  the model hold the sign-extended value, so every view reads the cell itself.
\<close>

definition dk_get_index :: "PyDictKeysObject \<Rightarrow> nat \<Rightarrow> int" where
  "dk_get_index keys i =
     (let s = dk_size keys in
      if s \<le> 0xff then dk_indices keys ! i
      else if s \<le> 0xffff then dk_indices keys ! i
      else if s > 0xffffffff then dk_indices keys ! i
      else dk_indices keys ! i)"

text \<open>
  \<^verbatim>\<open>dk_set_index\<close> stores \<open>ix\<close> after the cast to the cell width (\<^verbatim>\<open>(char)ix\<close>,
  \<^verbatim>\<open>(int16_t)ix\<close>, \<^verbatim>\<open>(int32_t)ix\<close>, or the full 64 bits).
\<close>

definition dk_set_index :: "PyDictKeysObject \<Rightarrow> nat \<Rightarrow> int \<Rightarrow> PyDictKeysObject" where
  "dk_set_index keys i ix =
     (let s = dk_size keys in
      if s \<le> 0xff then keys\<lparr>dk_indices := (dk_indices keys)[i := sint (word_of_int ix :: 8 word)]\<rparr>
      else if s \<le> 0xffff then keys\<lparr>dk_indices := (dk_indices keys)[i := sint (word_of_int ix :: 16 word)]\<rparr>
      else if s > 0xffffffff then keys\<lparr>dk_indices := (dk_indices keys)[i := sint (word_of_int ix :: 64 word)]\<rparr>
      else keys\<lparr>dk_indices := (dk_indices keys)[i := sint (word_of_int ix :: 32 word)]\<rparr>)"

subsection \<open>The probe loop of \<^verbatim>\<open>lookdict_ident\<close>\<close>

text \<open>
  The body of \<^verbatim>\<open>for (;;)\<close> in \<^verbatim>\<open>lookdict_ident\<close>, with the loop variables \<open>perturb\<close>
  and \<open>i\<close> as arguments (\<open>msk\<close> is the local \<^verbatim>\<open>mask\<close>). The loop has no bound in the source, so the function is
  partial: \<open>None\<close> means that the loop never returns.
\<close>

partial_function (option) lookdict_ident_loop ::
  "PyDictKeysObject \<Rightarrow> pyobj \<Rightarrow> size_t \<Rightarrow> size_t \<Rightarrow> size_t \<Rightarrow> int option" where
  "lookdict_ident_loop keys key msk perturb i =
     (let ix = dk_get_index keys (unat i) in
      if ix = DKIX_EMPTY then Some DKIX_EMPTY
      else if ix \<ge> 0 \<and> me_key (dk_entries keys ! nat ix) = key then Some ix
      else lookdict_ident_loop keys key msk
             (drop_bit PERTURB_SHIFT perturb)
             (msk AND (i * 5 + drop_bit PERTURB_SHIFT perturb + 1)))"

declare lookdict_ident_loop.simps [code]

definition lookdict_ident :: "PyDictKeysObject \<Rightarrow> pyobj \<Rightarrow> Py_hash_t \<Rightarrow> int option" where
  "lookdict_ident keys key hash =
     (let msk = DK_MASK keys;
          perturb = hash;
          i = hash AND msk
      in lookdict_ident_loop keys key msk perturb i)"


section \<open>The plain-dict engine (Objects/dictobject.c)\<close>

text \<open>
  \<^verbatim>\<open>odictobject.c\<close> calls into \<^verbatim>\<open>dictobject.c\<close>, which declares its entry points in
  \<^verbatim>\<open>dict-common.h\<close> only. The callbacks and the allocator that the engine consumes
  are the fields of an environment: \<open>PyObject_Hash\<close> returns \<open>-1\<close> when hashing
  fails, \<open>key_equals\<close> returns \<open>None\<close> when the comparison fails,
  \<open>new_keys_object\<close> returns the address of a fresh key table of the given size or
  \<open>None\<close> when no memory is left, and \<open>USABLE_FRACTION\<close> gives the number of entry
  slots of a table of the given size.
\<close>

record dict_env =
  PyObject_Hash :: "pyobj \<Rightarrow> Py_hash_t"
  key_equals :: "pyobj \<Rightarrow> pyobj \<Rightarrow> bool option"
  new_keys_object :: "int \<Rightarrow> nat option"
  USABLE_FRACTION :: "int \<Rightarrow> int"

text \<open>
  Modelled from the spec: \<^verbatim>\<open>dk_lookup\<close> (the lookup function \<^verbatim>\<open>lookdict\<close> of
  \<^verbatim>\<open>dictobject.c\<close>, which is not part of the sources at hand). Section 4.1: the probe
  starts at \<open>hash & mask\<close>, each step computes \<open>next = mask & (i*5 + perturb + 1)\<close>
  after \<open>perturb >>= 5\<close>, and continues until an EMPTY cell (miss) or a cell whose
  entry's key is equal to the query key (hit); a failing comparison aborts the lookup
  with \<open>DKIX_ERROR\<close>.
\<close>

partial_function (option) lookdict_loop ::
  "dict_env \<Rightarrow> PyDictKeysObject \<Rightarrow> pyobj \<Rightarrow> size_t \<Rightarrow> size_t \<Rightarrow> size_t \<Rightarrow> int option" where
  "lookdict_loop env keys key msk perturb i =
     (let ix = dk_get_index keys (unat i) in
      if ix = DKIX_EMPTY then Some DKIX_EMPTY
      else if ix \<ge> 0 \<and> key_equals env (me_key (dk_entries keys ! nat ix)) key = None
        then Some DKIX_ERROR
      else if ix \<ge> 0 \<and> key_equals env (me_key (dk_entries keys ! nat ix)) key = Some True
        then Some ix
      else lookdict_loop env keys key msk
             (drop_bit PERTURB_SHIFT perturb)
             (msk AND (i * 5 + drop_bit PERTURB_SHIFT perturb + 1)))"

declare lookdict_loop.simps [code]

definition dk_lookup :: "dict_env \<Rightarrow> PyDictObject \<Rightarrow> pyobj \<Rightarrow> Py_hash_t \<Rightarrow> int option" where
  "dk_lookup env mp key hash =
     (let keys = ma_keys mp;
          msk = DK_MASK keys
      in lookdict_loop env keys key msk hash (hash AND msk))"

text \<open>
  Modelled from the spec: \<^verbatim>\<open>lookdict_index\<close> (declared in \<^verbatim>\<open>dict-common.h\<close>, defined
  in \<^verbatim>\<open>dictobject.c\<close>). It finds "the hash index entry for that hash": it walks the
  probe sequence of section 4.1 for \<open>hash\<close> until the cell that holds \<open>index\<close>, whose
  position it returns, or an EMPTY cell, where it returns \<open>DKIX_EMPTY\<close>.
\<close>

partial_function (option) lookdict_index_loop ::
  "PyDictKeysObject \<Rightarrow> int \<Rightarrow> size_t \<Rightarrow> size_t \<Rightarrow> size_t \<Rightarrow> int option" where
  "lookdict_index_loop k index msk perturb i =
     (let ix = dk_get_index k (unat i) in
      if ix = index then Some (uint i)
      else if ix = DKIX_EMPTY then Some DKIX_EMPTY
      else lookdict_index_loop k index msk
             (drop_bit PERTURB_SHIFT perturb)
             (msk AND (i * 5 + drop_bit PERTURB_SHIFT perturb + 1)))"

declare lookdict_index_loop.simps [code]

definition lookdict_index :: "PyDictKeysObject \<Rightarrow> Py_hash_t \<Rightarrow> int \<Rightarrow> int option" where
  "lookdict_index k hash index =
     (let msk = DK_MASK k
      in lookdict_index_loop k index msk hash (hash AND msk))"

text \<open>
  Modelled from the spec: the search for the cell that receives a new entry
  (\<^verbatim>\<open>dictobject.c\<close>). It follows the same probe sequence until an EMPTY cell.
\<close>

partial_function (option) find_empty_slot_loop ::
  "PyDictKeysObject \<Rightarrow> size_t \<Rightarrow> size_t \<Rightarrow> size_t \<Rightarrow> nat option" where
  "find_empty_slot_loop keys msk perturb i =
     (if dk_get_index keys (unat i) = DKIX_EMPTY then Some (unat i)
      else find_empty_slot_loop keys msk
             (drop_bit PERTURB_SHIFT perturb)
             (msk AND (i * 5 + drop_bit PERTURB_SHIFT perturb + 1)))"

declare find_empty_slot_loop.simps [code]

definition find_empty_slot :: "PyDictKeysObject \<Rightarrow> Py_hash_t \<Rightarrow> nat option" where
  "find_empty_slot keys hash =
     (let msk = DK_MASK keys
      in find_empty_slot_loop keys msk hash (hash AND msk))"

text \<open>
  Modelled from the spec: the capacity of a resize (section 4.2), the request "rounded up
  to the next power of two, with a floor of 8 slots": the size starts at 8 and doubles
  while it is below the request.
\<close>

function round_up_size :: "int \<Rightarrow> int \<Rightarrow> int" where
  "round_up_size newsize minused =
     (if 0 < newsize \<and> newsize < minused then round_up_size (newsize * 2) minused
      else newsize)"
  by pat_completeness auto
termination
  by (relation "measure (\<lambda>(newsize, minused). nat (minused - newsize))") auto

declare round_up_size.simps [simp del]

definition PyDict_MINSIZE :: int where
  "PyDict_MINSIZE = 8"

definition resize_capacity :: "int \<Rightarrow> int" where
  "resize_capacity minused = round_up_size PyDict_MINSIZE minused"


definition zero_entry :: PyDictKeyEntry where
  "zero_entry = \<lparr>me_hash = 0, me_key = NULL, me_value = NULL\<rparr>"

text \<open>
  Modelled from the spec: rebuilding the hash index "by re-inserting each relocated
  entry's hash" (section 4.2): entries \<open>ix, ix + 1, \<dots>\<close> (\<open>n\<close> of them) are entered in
  turn, each into the first EMPTY cell of its probe sequence.
\<close>

fun build_indices :: "PyDictKeysObject \<Rightarrow> nat \<Rightarrow> nat \<Rightarrow> PyDictKeysObject option" where
  "build_indices keys ix 0 = Some keys"
| "build_indices keys ix (Suc n) =
     (case find_empty_slot keys (me_hash (dk_entries keys ! ix)) of
        None \<Rightarrow> None
      | Some i \<Rightarrow> build_indices (dk_set_index keys i (int ix)) (Suc ix) n)"

text \<open>
  Modelled from the spec: \<^verbatim>\<open>dictresize(mp, minused, offset)\<close> (declared in
  \<^verbatim>\<open>dict-common.h\<close>, defined in \<^verbatim>\<open>dictobject.c\<close>). Section 4.2: the capacity is the
  request rounded up to a power of two, at least 8; a new key table of that capacity
  is allocated; the live entries of slots \<open>[b, n)\<close> are copied in their order into the
  new entry store starting at \<open>offset\<close>, holes dropped, the \<open>offset\<close> leading slots
  staying empty; the hash index is rebuilt. When the allocation fails the map stays
  on its key table and the result is \<open>-1\<close>.
\<close>

definition live_entries :: "PyDictObject \<Rightarrow> PyDictKeyEntry list" where
  "live_entries mp =
     filter (\<lambda>e. me_value e \<noteq> NULL)
       (drop (nat (ma_offset mp)) (take (nat (dk_nentries (ma_keys mp))) (dk_entries (ma_keys mp))))"

definition dictresize ::
  "dict_env \<Rightarrow> PyDictObject \<Rightarrow> int \<Rightarrow> int \<Rightarrow> (int \<times> PyDictObject) option" where
  "dictresize env mp minused offset =
     (let newsize = resize_capacity minused;
          live = live_entries mp;
          numentries = int (length live)
      in case new_keys_object env newsize of
           None \<Rightarrow> Some (-1, mp)
         | Some a \<Rightarrow>
             (let usable = USABLE_FRACTION env newsize;
                  keys = \<lparr>dk_addr = a, dk_size = newsize,
                          dk_usable = usable - (offset + numentries),
                          dk_nentries = offset + numentries,
                          dk_indices = replicate (nat newsize) DKIX_EMPTY,
                          dk_entries = replicate (nat offset) zero_entry @ live @
                            replicate (nat (usable - (offset + numentries))) zero_entry\<rparr>
              in case build_indices keys (nat offset) (length live) of
                   None \<Rightarrow> None
                 | Some keys' \<Rightarrow> Some (0, mp\<lparr>ma_keys := keys', ma_offset := offset\<rparr>)))"

subsection \<open>Results of the operations\<close>

text \<open>
  The outcomes of the error taxonomy: \<open>NotFound\<close> is a \<^verbatim>\<open>KeyError\<close>,
  \<open>AllocationFailed\<close> the \<^verbatim>\<open>MemoryError\<close> of a failed resize, \<open>ComparisonFailed\<close> the
  exception of a failing key comparison (\<open>DKIX_ERROR\<close>), \<open>HashFailed\<close> the exception
  of a failing \<^verbatim>\<open>PyObject_Hash\<close> (result \<open>-1\<close>).
\<close>

datatype outcome = Ok | NotFound | AllocationFailed | ComparisonFailed | HashFailed

text \<open>
  Modelled from the spec: \<^verbatim>\<open>PyDict_SetItem\<close> (\<^verbatim>\<open>dictobject.c\<close>). Section 4.2: insert
  first performs lookup; on a hit the value is replaced; on a miss, if \<open>usable == 0\<close>,
  a resize to the growth target precedes the insertion; the entry is appended at
  slot \<open>n\<close> and entered into the hash index. It works on the \<^verbatim>\<open>PyDictObject\<close>.
\<close>

definition insert_new_entry ::
  "PyDictObject \<Rightarrow> pyobj \<Rightarrow> Py_hash_t \<Rightarrow> pyobj \<Rightarrow> PyDictObject option" where
  "insert_new_entry mp key hash v =
     (let keys = ma_keys mp in
      case find_empty_slot keys hash of
        None \<Rightarrow> None
      | Some i \<Rightarrow>
          if nat (dk_nentries keys) < length (dk_entries keys) \<and> 0 \<le> dk_nentries keys then
            (let keys = dk_set_index keys i (dk_nentries keys);
                 keys = keys\<lparr>dk_entries := (dk_entries keys)[nat (dk_nentries keys) :=
                                 \<lparr>me_hash = hash, me_key = key, me_value = v\<rparr>],
                             dk_usable := dk_usable keys - 1,
                             dk_nentries := dk_nentries keys + 1\<rparr>
             in Some (mp\<lparr>ma_keys := keys, ma_used := ma_used mp + 1\<rparr>))
          else None)"

definition PyDict_SetItem ::
  "dict_env \<Rightarrow> PyDictObject \<Rightarrow> pyobj \<Rightarrow> pyobj \<Rightarrow> (outcome \<times> PyDictObject) option" where
  "PyDict_SetItem env mp key v =
     (let hash = PyObject_Hash env key in
      if hash = -1 then Some (HashFailed, mp)
      else case dk_lookup env mp key hash of
        None \<Rightarrow> None
      | Some ix \<Rightarrow>
          if ix = DKIX_ERROR then Some (ComparisonFailed, mp)
          else if ix \<ge> 0 then
            (let keys = ma_keys mp;
                 ep0 = dk_entries keys
             in Some (Ok, mp\<lparr>ma_keys := keys\<lparr>dk_entries :=
                                 ep0[nat ix := (ep0 ! nat ix)\<lparr>me_value := v\<rparr>]\<rparr>\<rparr>))
          else if dk_usable (ma_keys mp) \<le> 0 then
            (case dictresize env mp (GROWTH_RATE mp) 0 of
               None \<Rightarrow> None
             | Some (r, mp') \<Rightarrow>
                 if r < 0 then Some (AllocationFailed, mp')
                 else map_option (Pair Ok) (insert_new_entry mp' key hash v))
          else map_option (Pair Ok) (insert_new_entry mp key hash v))"

text \<open>
  Modelled from the spec: \<^verbatim>\<open>PyDict_DelItem\<close> (\<^verbatim>\<open>dictobject.c\<close>). Sections 3 and 6:
  delete looks the key up and logically removes the entry: its slot becomes a hole
  that only a resize reclaims, its index cell is marked \<open>DKIX_DUMMY\<close> so that the
  probe sequences through it stay connected, and the live count drops by one.
\<close>

definition PyDict_DelItem ::
  "dict_env \<Rightarrow> PyDictObject \<Rightarrow> pyobj \<Rightarrow> (outcome \<times> PyDictObject) option" where
  "PyDict_DelItem env mp key =
     (let hash = PyObject_Hash env key in
      if hash = -1 then Some (HashFailed, mp)
      else case dk_lookup env mp key hash of
        None \<Rightarrow> None
      | Some ix \<Rightarrow>
          if ix = DKIX_ERROR then Some (ComparisonFailed, mp)
          else if ix < 0 then Some (NotFound, mp)
          else
            (case lookdict_index (ma_keys mp) hash ix of
               None \<Rightarrow> None
             | Some hashpos \<Rightarrow>
                 if hashpos < 0 then None
                 else
                   (let keys = dk_set_index (ma_keys mp) (nat hashpos) DKIX_DUMMY;
                        ep0 = dk_entries keys;
                        keys = keys\<lparr>dk_entries :=
                                 list_update ep0 (nat ix)
                                   ((ep0 ! nat ix)\<lparr>me_key := NULL, me_value := NULL\<rparr>)\<rparr>
                    in Some (Ok, mp\<lparr>ma_keys := keys, ma_used := ma_used mp - 1\<rparr>))))"


section \<open>OrderedDict (Objects/odictobject.c)\<close>

text \<open>
  The operations return \<open>None\<close> where the C code has no defined result: a probe loop
  that does not return, a failed \<^verbatim>\<open>assert\<close>, or an array access outside of the array.
\<close>

subsection \<open>\<^verbatim>\<open>OrderedDict_move_to_end_impl\<close>\<close>

text \<open>
  The three lines that both branches run when they have to resize:
  \<^verbatim>\<open>if (dictresize(mp, minused, offset) < 0) return NULL;\<close>
  \<^verbatim>\<open>keys = mp->ma_keys; ix = lookdict_ident(keys, key, hash); assert(ix >= 0);\<close>
  The result is the unchanged map when the resize fails (\<open>Inl\<close>), and the resized map
  with the new entry index of the key otherwise (\<open>Inr\<close>).
\<close>

definition resize_and_find ::
  "dict_env \<Rightarrow> PyDictObject \<Rightarrow> pyobj \<Rightarrow> Py_hash_t \<Rightarrow> int \<Rightarrow> int \<Rightarrow>
     (PyDictObject + PyDictObject \<times> int) option" where
  "resize_and_find env mp key hash minused offset =
     (case dictresize env mp minused offset of
        None \<Rightarrow> None
      | Some (r, mp') \<Rightarrow>
          if r < 0 then Some (Inl mp')
          else (case lookdict_ident (ma_keys mp') key hash of
                  None \<Rightarrow> None
                | Some ix \<Rightarrow> if ix \<ge> 0 then Some (Inr (mp', ix)) else None))"

text \<open>
  The straight-line code at the end of the block \<^verbatim>\<open>if (last) { ... }\<close>, from
  \<^verbatim>\<open>dk_set_index(keys, hashpos, keys->dk_nentries)\<close> to \<^verbatim>\<open>mp->ma_offset++\<close>.
\<close>

definition relocate_to_end :: "PyDictObject \<Rightarrow> int \<Rightarrow> int \<Rightarrow> int \<Rightarrow> PyDictObject" where
  "relocate_to_end mp hashpos ix offset =
     (let keys = ma_keys mp;
          keys = dk_set_index keys (nat hashpos) (dk_nentries keys);
          ep0 = dk_entries keys;
          ep0 = list_update ep0 (nat (dk_nentries keys)) (ep0 ! nat ix);
          ep0 = list_update ep0 (nat ix)
                  ((ep0 ! nat ix)\<lparr>me_key := NULL, me_value := NULL, me_hash := 0\<rparr>);
          keys = keys\<lparr>dk_entries := ep0,
                      dk_nentries := dk_nentries keys + 1,
                      dk_usable := dk_usable keys - 1\<rparr>;
          mp = mp\<lparr>ma_keys := keys\<rparr>
      in if ix = offset then mp\<lparr>ma_offset := ma_offset mp + 1\<rparr> else mp)"

text \<open>The block \<^verbatim>\<open>if (last) { ... }\<close>, after the key has been found at entry \<open>ix\<close>.\<close>

definition move_to_end_last ::
  "dict_env \<Rightarrow> PyDictObject \<Rightarrow> pyobj \<Rightarrow> Py_hash_t \<Rightarrow> int \<Rightarrow> int \<Rightarrow>
     (outcome \<times> PyDictObject) option" where
  "move_to_end_last env mp key hash ix offset =
     (case (if dk_usable (ma_keys mp) = 0
            then resize_and_find env mp key hash (GROWTH_RATE mp + offset) offset
            else Some (Inr (mp, ix))) of
        None \<Rightarrow> None
      | Some (Inl mp') \<Rightarrow> Some (AllocationFailed, mp')
      | Some (Inr (mp, ix)) \<Rightarrow>
          (let keys = ma_keys mp in
           case lookdict_index keys hash ix of
             None \<Rightarrow> None
           | Some hashpos \<Rightarrow>
               if hashpos < 0 \<or> dk_nentries keys < 0
                  \<or> length (dk_entries keys) \<le> nat (dk_nentries keys)
                  \<or> length (dk_entries keys) \<le> nat ix then None
               else Some (Ok, relocate_to_end mp hashpos ix offset)))"

text \<open>
  The straight-line code at the end of the block \<^verbatim>\<open>else { ... }\<close>, from
  \<^verbatim>\<open>dk_set_index(keys, hashpos, offset)\<close> to \<^verbatim>\<open>mp->ma_offset = offset\<close>; \<open>offset\<close> has
  been decremented before.
\<close>

definition relocate_to_front :: "PyDictObject \<Rightarrow> int \<Rightarrow> int \<Rightarrow> int \<Rightarrow> PyDictObject" where
  "relocate_to_front mp hashpos ix offset =
     (let keys = ma_keys mp;
          keys = dk_set_index keys (nat hashpos) offset;
          ep0 = dk_entries keys;
          ep0 = list_update ep0 (nat offset) (ep0 ! nat ix);
          ep0 = list_update ep0 (nat ix)
                  ((ep0 ! nat ix)\<lparr>me_key := NULL, me_value := NULL, me_hash := 0\<rparr>);
          keys = keys\<lparr>dk_entries := ep0,
                      dk_nentries := dk_nentries keys + 1,
                      dk_usable := dk_usable keys - 1\<rparr>
      in mp\<lparr>ma_keys := keys, ma_offset := offset\<rparr>)"

text \<open>The block \<^verbatim>\<open>else { ... }\<close> (move to the front).\<close>

definition move_to_end_first ::
  "dict_env \<Rightarrow> PyDictObject \<Rightarrow> pyobj \<Rightarrow> Py_hash_t \<Rightarrow> int \<Rightarrow> int \<Rightarrow>
     (outcome \<times> PyDictObject) option" where
  "move_to_end_first env mp key hash ix offset =
     (case (if offset = 0
            then (let offset = ma_used mp div 2 + 2 in
                  case resize_and_find env mp key hash (GROWTH_RATE mp + offset) offset of
                    None \<Rightarrow> None
                  | Some (Inl mp') \<Rightarrow> Some (Inl mp')
                  | Some (Inr (mp', ix')) \<Rightarrow> Some (Inr (mp', ix', offset)))
            else Some (Inr (mp, ix, offset))) of
        None \<Rightarrow> None
      | Some (Inl mp') \<Rightarrow> Some (AllocationFailed, mp')
      | Some (Inr (mp, ix, offset)) \<Rightarrow>
          (let keys = ma_keys mp;
               offset = offset - 1
           in case lookdict_index keys hash ix of
             None \<Rightarrow> None
           | Some hashpos \<Rightarrow>
               if hashpos < 0 \<or> offset < 0
                  \<or> length (dk_entries keys) \<le> nat offset
                  \<or> length (dk_entries keys) \<le> nat ix then None
               else Some (Ok, relocate_to_front mp hashpos ix offset)))"

definition OrderedDict_move_to_end_impl ::
  "dict_env \<Rightarrow> PyODictObject \<Rightarrow> pyobj \<Rightarrow> bool \<Rightarrow> (outcome \<times> PyODictObject) option" where
  "OrderedDict_move_to_end_impl env self key last_flag =
     (if odict_EMPTY self then Some (NotFound, self)
      else
        (let hash = PyObject_Hash env key in
         if hash = -1 then Some (HashFailed, self)
         else
           (let mp = od_dict self;
                keys = ma_keys mp
            in case dk_lookup env mp key hash of
                 None \<Rightarrow> None
               | Some ix \<Rightarrow>
                   if ix = DKIX_EMPTY then Some (NotFound, self)
                   else if ix = DKIX_ERROR then Some (ComparisonFailed, self)
                   else if ix < 0 \<or> length (dk_entries keys) \<le> nat ix then None
                   else
                     (let key = me_key (dk_entries keys ! nat ix);
                          offset = ma_offset mp
                      in if last_flag then
                           (if ix = dk_nentries keys - 1 then Some (Ok, self)
                            else case move_to_end_last env mp key hash ix offset of
                                   None \<Rightarrow> None
                                 | Some (Ok, mp') \<Rightarrow>
                                     Some (Ok, self\<lparr>od_dict := mp', od_state := od_state self + 1\<rparr>)
                                 | Some (e, mp') \<Rightarrow> Some (e, self\<lparr>od_dict := mp'\<rparr>))
                         else
                           (if ix = offset then Some (Ok, self)
                            else case move_to_end_first env mp key hash ix offset of
                                   None \<Rightarrow> None
                                 | Some (Ok, mp') \<Rightarrow>
                                     Some (Ok, self\<lparr>od_dict := mp', od_state := od_state self + 1\<rparr>)
                                 | Some (e, mp') \<Rightarrow> Some (e, self\<lparr>od_dict := mp'\<rparr>))))))"

subsection \<open>The public API: \<^verbatim>\<open>PyODict_SetItem\<close> and \<^verbatim>\<open>PyODict_DelItem\<close>\<close>

text \<open>
  Both forward the object to the plain-dict function, which sees its
  \<^verbatim>\<open>PyDictObject\<close> part (the first member \<open>od_dict\<close>); the layout of
  \<^verbatim>\<open>struct _odictobject\<close> is private to \<^verbatim>\<open>odictobject.c\<close>.
\<close>

definition PyODict_SetItem ::
  "dict_env \<Rightarrow> PyODictObject \<Rightarrow> pyobj \<Rightarrow> pyobj \<Rightarrow> (outcome \<times> PyODictObject) option" where
  "PyODict_SetItem env od key v =
     map_option (\<lambda>(r, mp). (r, od\<lparr>od_dict := mp\<rparr>)) (PyDict_SetItem env (od_dict od) key v)"

definition PyODict_DelItem ::
  "dict_env \<Rightarrow> PyODictObject \<Rightarrow> pyobj \<Rightarrow> (outcome \<times> PyODictObject) option" where
  "PyODict_DelItem env od key =
     map_option (\<lambda>(r, mp). (r, od\<lparr>od_dict := mp\<rparr>)) (PyDict_DelItem env (od_dict od) key)"


subsection \<open>The iterator (\<^verbatim>\<open>odictiterobject\<close>)\<close>

text \<open>
  The iterator points at the dictionary, which lives in a store of objects and may
  be changed between two advances; \<open>di_odict\<close> and \<open>di_keys\<close> are addresses
  (\<open>NULL\<close> when cleared).
\<close>

type_synonym odict_store = "nat \<Rightarrow> PyODictObject"

record odictiterobject =
  kind :: int
  di_odict :: nat
  di_keys :: nat
  di_size :: int
  di_state :: size_t
  di_pos :: int
  di_result :: pyobj

definition odict_ITER_REVERSED :: int where
  "odict_ITER_REVERSED = 1"

definition odict_ITER_KEYS :: int where
  "odict_ITER_KEYS = 2"

definition odict_ITER_VALUES :: int where
  "odict_ITER_VALUES = 4"

text \<open>
  \<^verbatim>\<open>odictiter_new(od, kind)\<close>. \<open>gc_new\<close> tells whether \<^verbatim>\<open>PyObject_GC_New\<close> succeeds and
  \<open>tuple\<close> is the result of \<^verbatim>\<open>PyTuple_Pack\<close> (\<open>NULL\<close> on failure); the result \<open>None\<close>
  is the \<^verbatim>\<open>NULL\<close> of a failed creation.
\<close>

definition odictiter_new ::
  "odict_store \<Rightarrow> nat \<Rightarrow> int \<Rightarrow> bool \<Rightarrow> pyobj \<Rightarrow> odictiterobject option" where
  "odictiter_new st od kind' gc_new tuple =
     (let reversed = kind' AND odict_ITER_REVERSED in
      if \<not> gc_new then None
      else if kind' AND (odict_ITER_KEYS OR odict_ITER_VALUES) \<noteq> 0 \<and> tuple = NULL then None
      else
        (let result = (if kind' AND (odict_ITER_KEYS OR odict_ITER_VALUES) \<noteq> 0
                       then tuple else NULL);
             size = PyODict_SIZE (st od)
         in if size > 0 then
              Some \<lparr>kind = kind', di_odict = od,
                    di_keys = dk_addr (ma_keys (od_dict (st od))),
                    di_size = size,
                    di_state = od_state (st od),
                    di_pos = (if reversed \<noteq> 0
                              then dk_nentries (ma_keys (od_dict (st od))) - 1
                              else ma_offset (od_dict (st od))),
                    di_result = result\<rparr>
            else
              Some \<lparr>kind = kind', di_odict = NULL, di_keys = NULL, di_size = size,
                    di_state = -1, di_pos = -1, di_result = result\<rparr>))"

text \<open>
  The two loops of \<^verbatim>\<open>odictiter_iternext\<close> that skip the holes. Each test of
  \<^verbatim>\<open>entry_ptr->me_value\<close> reads slot \<open>pos\<close> of the entry array; the result is \<open>None\<close>
  when that slot is outside the array.
\<close>

function skip_holes_reversed :: "PyDictKeyEntry list \<Rightarrow> int \<Rightarrow> int \<Rightarrow> int option" where
  "skip_holes_reversed ep offset pos =
     (if pos \<ge> offset then
        (if pos < 0 \<or> int (length ep) \<le> pos then None
         else if me_value (ep ! nat pos) = NULL
           then skip_holes_reversed ep offset (pos - 1) else Some pos)
      else Some pos)"
  by pat_completeness auto
termination
  by (relation "measure (\<lambda>(ep, offset, pos). nat (pos - offset + 1))") auto

declare skip_holes_reversed.simps [simp del]

function skip_holes_forward :: "PyDictKeyEntry list \<Rightarrow> int \<Rightarrow> int \<Rightarrow> int option" where
  "skip_holes_forward ep n pos =
     (if pos < n then
        (if pos < 0 \<or> int (length ep) \<le> pos then None
         else if me_value (ep ! nat pos) = NULL
           then skip_holes_forward ep n (pos + 1) else Some pos)
      else Some pos)"
  by pat_completeness auto
termination
  by (relation "measure (\<lambda>(ep, n, pos). nat (n - pos))") auto

declare skip_holes_forward.simps [simp del]

text \<open>
  What an advance of the iterator gives: the returned object, or the reason of the
  \<^verbatim>\<open>NULL\<close>: plain exhaustion (\<open>StopIteration\<close>, no exception set) or the exception.
  \<open>Fault\<close> stands for the advances whose behaviour the C language leaves undefined:
  the source reads a slot outside the entry array, or hands a \<^verbatim>\<open>NULL\<close> key or value to
  \<^verbatim>\<open>Py_INCREF\<close>, which dereferences it.
\<close>

datatype iter_result =
    Key pyobj
  | Value pyobj
  | Item pyobj pyobj
  | StopIteration
  | MutatedDuringIteration
  | SizeChangedDuringIteration
  | TupleAllocationFailed
  | Fault

text \<open>
  \<^verbatim>\<open>odictiter_iternext(di)\<close>, on the current store. \<open>reusable\<close> is the test
  \<^verbatim>\<open>Py_REFCNT(result) == 1\<close> and \<open>tuple\<close> the result of \<^verbatim>\<open>PyTuple_New(2)\<close>. After the
  loop the source tests \<^verbatim>\<open>pos < 0\<close> (reversed) or \<^verbatim>\<open>pos >= n\<close> (forward) only, then
  reads the entry at \<open>pos\<close>: the keys case hands \<^verbatim>\<open>me_key\<close> to \<^verbatim>\<open>Py_INCREF\<close>, the values
  case \<^verbatim>\<open>me_value\<close>, the items case both, before the tuple is allocated.
\<close>

definition odictiter_iternext ::
  "odict_store \<Rightarrow> odictiterobject \<Rightarrow> bool \<Rightarrow> pyobj \<Rightarrow> iter_result \<times> odictiterobject" where
  "odictiter_iternext st di reusable tuple =
     (if di_odict di = NULL then (StopIteration, di)
      else
        (let od = st (di_odict di);
             dk = ma_keys (od_dict od)
         in if od_state od \<noteq> di_state di \<or> dk_addr dk \<noteq> di_keys di then
              (MutatedDuringIteration, di\<lparr>di_odict := NULL\<rparr>)
            else if di_size di \<noteq> PyODict_SIZE od then
              (SizeChangedDuringIteration, di\<lparr>di_size := -1\<rparr>)
            else
              (case (if kind di AND odict_ITER_REVERSED \<noteq> 0
                     then skip_holes_reversed (dk_entries dk) (ma_offset (od_dict od)) (di_pos di)
                     else skip_holes_forward (dk_entries dk) (dk_nentries dk) (di_pos di)) of
                 None \<Rightarrow> (Fault, di)
               | Some stop \<Rightarrow>
                   (let failed = (if kind di AND odict_ITER_REVERSED \<noteq> 0
                                  then stop < 0 else stop \<ge> dk_nentries dk);
                        entry = dk_entries dk ! nat stop;
                        pos = (if kind di AND odict_ITER_REVERSED \<noteq> 0 then stop - 1 else stop + 1)
                    in if failed then (StopIteration, di\<lparr>di_odict := NULL\<rparr>)
                       else if stop < 0 \<or> int (length (dk_entries dk)) \<le> stop then
                         (Fault, di\<lparr>di_pos := pos\<rparr>)
                       else if kind di AND odict_ITER_VALUES = 0 then
                         (if me_key entry = NULL then (Fault, di\<lparr>di_pos := pos\<rparr>)
                          else (Key (me_key entry), di\<lparr>di_pos := pos\<rparr>))
                       else if kind di AND odict_ITER_KEYS = 0 then
                         (if me_value entry = NULL then (Fault, di\<lparr>di_pos := pos\<rparr>)
                          else (Value (me_value entry), di\<lparr>di_pos := pos\<rparr>))
                       else if me_key entry = NULL \<or> me_value entry = NULL then
                         (Fault, di\<lparr>di_pos := pos\<rparr>)
                       else if \<not> reusable \<and> tuple = NULL then
                         (TupleAllocationFailed, di\<lparr>di_pos := pos, di_odict := NULL\<rparr>)
                       else (Item (me_key entry) (me_value entry), di\<lparr>di_pos := pos\<rparr>)))))"


text \<open>
  A run of the iterator: one advance per element of the list, each on the store as
  it is at that moment (with the two allocation answers of that advance). Nothing
  follows a \<open>Fault\<close>.
\<close>

fun iter_run :: "odictiterobject \<Rightarrow> (odict_store \<times> bool \<times> pyobj) list \<Rightarrow> iter_result list" where
  "iter_run di [] = []"
| "iter_run di ((st, reusable, tuple) # rest) =
     (case odictiter_iternext st di reusable tuple of
        (res, di') \<Rightarrow> res # (if res = Fault then [] else iter_run di' rest))"

section \<open>Vocabulary of the properties\<close>

text \<open>
  The test that makes \<^verbatim>\<open>move_to_end\<close> return at once: the entry \<open>ix\<close> of the key is
  the last populated slot (\<^verbatim>\<open>ix == keys->dk_nentries - 1\<close>, \<open>last\<close>), or the slot at the
  begin offset (\<^verbatim>\<open>ix == offset\<close>, not \<open>last\<close>).
\<close>

definition is_noop :: "PyODictObject \<Rightarrow> int \<Rightarrow> bool \<Rightarrow> bool" where
  "is_noop od ix last_flag =
     (if last_flag then ix = dk_nentries (ma_keys (od_dict od)) - 1
      else ix = ma_offset (od_dict od))"

text \<open>
  The probe sequence in the words of the spec (section 4.1): the start slot is
  \<open>hash & mask\<close>, and each step takes \<open>perturb >>= 5\<close> and
  \<open>next = mask & (i*5 + perturb + 1)\<close>. A state is the pair \<open>(perturb, i)\<close>;
  \<open>probe msk hash t\<close> is the state after \<open>t\<close> steps.
\<close>

definition probe_next :: "size_t \<Rightarrow> size_t \<times> size_t \<Rightarrow> size_t \<times> size_t" where
  "probe_next msk = (\<lambda>(perturb, i).
     (drop_bit PERTURB_SHIFT perturb, msk AND (i * 5 + drop_bit PERTURB_SHIFT perturb + 1)))"

definition probe :: "size_t \<Rightarrow> Py_hash_t \<Rightarrow> nat \<Rightarrow> size_t \<times> size_t" where
  "probe msk hash t = (probe_next msk ^^ t) (hash, hash AND msk)"

text \<open>
  The step of the probe on a table of \<open>2^k\<close> cells once \<open>perturb\<close> has become 0.
\<close>

definition lcg_step :: "nat \<Rightarrow> nat \<Rightarrow> nat" where
  "lcg_step k y = (5 * y + 1) mod 2 ^ k"

text \<open>
  The exit test of the loop of \<^verbatim>\<open>lookdict_ident\<close> at position \<open>i\<close>: the cell is EMPTY, or
  it refers to an entry whose key is the very object \<open>key\<close>.
\<close>

definition ident_stop :: "PyDictKeysObject \<Rightarrow> pyobj \<Rightarrow> size_t \<Rightarrow> bool" where
  "ident_stop keys key i =
     (dk_get_index keys (unat i) = DKIX_EMPTY
      \<or> (dk_get_index keys (unat i) \<ge> 0
          \<and> me_key (dk_entries keys ! nat (dk_get_index keys (unat i))) = key))"

text \<open>
  The cell that holds \<open>ix\<close> is reached by the probe sequence of \<open>hash\<close> before any EMPTY
  cell: this is what makes a lookup that walks the sequence up to the first EMPTY
  cell find the cell.
\<close>

definition reached :: "PyDictKeysObject \<Rightarrow> Py_hash_t \<Rightarrow> int \<Rightarrow> bool" where
  "reached keys hash ix =
     (\<exists>t. dk_get_index keys (unat (snd (probe (DK_MASK keys) hash t))) = ix
        \<and> (\<forall>t' < t. dk_get_index keys (unat (snd (probe (DK_MASK keys) hash t'))) \<noteq> DKIX_EMPTY))"

text \<open>
  The shape of a hash index: the size is a power of two (\<open>2^3\<close> to \<open>2^62\<close>), the index
  has that many cells, and every cell is negative or refers to a slot of the entry
  array.
\<close>

definition index_table_ok :: "PyDictKeysObject \<Rightarrow> bool" where
  "index_table_ok keys =
     ((\<exists>k \<in> set [3..<63]. dk_size keys = 2 ^ k)
      \<and> int (length (dk_indices keys)) = dk_size keys
      \<and> (\<forall>ix \<in> set (dk_indices keys). ix \<ge> 0 \<longrightarrow> nat ix < length (dk_entries keys)))"

text \<open>
  The logical content of a map (spec, section 4.4): the entry slots \<open>[b, n)\<close> read from
  left to right, skipping the holes. \<open>od_items\<close> lists the key-value pairs in that
  order, \<open>live_slots\<close> the slots that hold them.
\<close>

definition od_items :: "PyDictObject \<Rightarrow> (pyobj \<times> pyobj) list" where
  "od_items mp = map (\<lambda>e. (me_key e, me_value e)) (live_entries mp)"

definition live_slots :: "PyDictObject \<Rightarrow> nat list" where
  "live_slots mp =
     filter (\<lambda>j. me_value (dk_entries (ma_keys mp) ! j) \<noteq> NULL)
       [nat (ma_offset mp) ..< nat (dk_nentries (ma_keys mp))]"

definition is_last_live :: "PyDictObject \<Rightarrow> int \<Rightarrow> bool" where
  "is_last_live mp ix = (live_slots mp \<noteq> [] \<and> int (last (live_slots mp)) = ix)"

text \<open>
  The representation invariant of the dictionary part: the hash index has its shape;
  \<open>0 \<le> b \<le> n\<close>; the entry array has \<open>n + usable\<close> slots, fewer than the index has
  cells; every non-negative cell refers to a slot of \<open>[b, n)\<close> that holds a key and
  a value; the slots from \<open>n\<close> on are unused; and \<open>ma_used\<close> counts the live entries.
\<close>

definition odict_ok :: "PyDictObject \<Rightarrow> bool" where
  "odict_ok mp =
     (index_table_ok (ma_keys mp)
      \<and> 0 \<le> ma_offset mp \<and> ma_offset mp \<le> dk_nentries (ma_keys mp)
      \<and> 0 \<le> dk_usable (ma_keys mp)
      \<and> dk_nentries (ma_keys mp) + dk_usable (ma_keys mp) = int (length (dk_entries (ma_keys mp)))
      \<and> int (length (dk_entries (ma_keys mp))) < dk_size (ma_keys mp)
      \<and> (\<forall>ix \<in> set (dk_indices (ma_keys mp)).
            ix \<ge> 0 \<longrightarrow> ma_offset mp \<le> ix \<and> ix < dk_nentries (ma_keys mp)
              \<and> me_key (dk_entries (ma_keys mp) ! nat ix) \<noteq> NULL
              \<and> me_value (dk_entries (ma_keys mp) ! nat ix) \<noteq> NULL)
      \<and> (\<forall>e \<in> set (drop (nat (dk_nentries (ma_keys mp))) (dk_entries (ma_keys mp))).
            me_value e = NULL)
      \<and> ma_used mp = int (length (live_entries mp)))"

section \<open>Example states\<close>

text \<open>
  An environment where object \<open>k\<close> hashes to \<open>k\<close>, except that hashing object 99 fails;
  keys are equal when they are the same object, except that comparing with object 18
  fails; tables of more than 16 cells cannot be allocated; a table of \<open>n\<close> cells has
  \<open>2n/3\<close> entry slots.
\<close>

definition env0 :: dict_env where
  "env0 = \<lparr>PyObject_Hash = (\<lambda>k. if k = 99 then -1 else word_of_nat k),
           key_equals = (\<lambda>a b. if b = 18 then None else Some (a = b)),
           new_keys_object = (\<lambda>n. if n > 16 then None else Some 2),
           USABLE_FRACTION = (\<lambda>n. (n * 2) div 3)\<rparr>"

text \<open>The same environment without any memory left.\<close>

definition env_nomem :: dict_env where
  "env_nomem = env0\<lparr>new_keys_object := (\<lambda>n. None)\<rparr>"

text \<open>Keys 10, 11, 12 inserted in this order into a table of 8 cells, at address 1.\<close>

definition od0 :: PyODictObject where
  "od0 = \<lparr>od_dict = \<lparr>ma_used = 3, ma_offset = 0,
            ma_keys = \<lparr>dk_addr = 1, dk_size = 8, dk_usable = 2, dk_nentries = 3,
              dk_indices = [-1, -1, 0, 1, 2, -1, -1, -1],
              dk_entries = [\<lparr>me_hash = 10, me_key = 10, me_value = 100\<rparr>,
                            \<lparr>me_hash = 11, me_key = 11, me_value = 101\<rparr>,
                            \<lparr>me_hash = 12, me_key = 12, me_value = 102\<rparr>,
                            zero_entry, zero_entry]\<rparr>\<rparr>,
          od_state = 0\<rparr>"

text \<open>\<open>od0\<close> after the insertion of the new key 15 with value 105.\<close>

definition od0_inserted :: PyODictObject where
  "od0_inserted = \<lparr>od_dict = \<lparr>ma_used = 4, ma_offset = 0,
            ma_keys = \<lparr>dk_addr = 1, dk_size = 8, dk_usable = 1, dk_nentries = 4,
              dk_indices = [-1, -1, 0, 1, 2, -1, -1, 3],
              dk_entries = [\<lparr>me_hash = 10, me_key = 10, me_value = 100\<rparr>,
                            \<lparr>me_hash = 11, me_key = 11, me_value = 101\<rparr>,
                            \<lparr>me_hash = 12, me_key = 12, me_value = 102\<rparr>,
                            \<lparr>me_hash = 15, me_key = 15, me_value = 105\<rparr>,
                            zero_entry]\<rparr>\<rparr>,
          od_state = 0\<rparr>"

text \<open>\<open>od0\<close> after the deletion of key 12: slot 2 is a hole behind the last live entry.\<close>

definition od0_deleted :: PyODictObject where
  "od0_deleted = \<lparr>od_dict = \<lparr>ma_used = 2, ma_offset = 0,
            ma_keys = \<lparr>dk_addr = 1, dk_size = 8, dk_usable = 2, dk_nentries = 3,
              dk_indices = [-1, -1, 0, 1, -2, -1, -1, -1],
              dk_entries = [\<lparr>me_hash = 10, me_key = 10, me_value = 100\<rparr>,
                            \<lparr>me_hash = 11, me_key = 11, me_value = 101\<rparr>,
                            \<lparr>me_hash = 12, me_key = NULL, me_value = NULL\<rparr>,
                            zero_entry, zero_entry]\<rparr>\<rparr>,
          od_state = 0\<rparr>"

text \<open>\<open>od0\<close> after \<^verbatim>\<open>move_to_end(11, last=False)\<close>: a resize to 16 cells with 3 reserved slots.\<close>

definition od0_front :: PyODictObject where
  "od0_front = \<lparr>od_dict = \<lparr>ma_used = 3, ma_offset = 2,
            ma_keys = \<lparr>dk_addr = 2, dk_size = 16, dk_usable = 3, dk_nentries = 7,
              dk_indices = [-1, -1, -1, -1, -1, -1, -1, -1, -1, -1, 3, 2, 5, -1, -1, -1],
              dk_entries = [zero_entry, zero_entry,
                            \<lparr>me_hash = 11, me_key = 11, me_value = 101\<rparr>,
                            \<lparr>me_hash = 10, me_key = 10, me_value = 100\<rparr>,
                            zero_entry,
                            \<lparr>me_hash = 12, me_key = 12, me_value = 102\<rparr>,
                            zero_entry, zero_entry, zero_entry, zero_entry]\<rparr>\<rparr>,
          od_state = 1\<rparr>"

text \<open>\<open>od0_deleted\<close> after \<^verbatim>\<open>move_to_end(11, last=True)\<close>.\<close>

definition od0_deleted_moved :: PyODictObject where
  "od0_deleted_moved = \<lparr>od_dict = \<lparr>ma_used = 2, ma_offset = 0,
            ma_keys = \<lparr>dk_addr = 1, dk_size = 8, dk_usable = 1, dk_nentries = 4,
              dk_indices = [-1, -1, 0, 3, -2, -1, -1, -1],
              dk_entries = [\<lparr>me_hash = 10, me_key = 10, me_value = 100\<rparr>,
                            zero_entry,
                            \<lparr>me_hash = 12, me_key = NULL, me_value = NULL\<rparr>,
                            \<lparr>me_hash = 11, me_key = 11, me_value = 101\<rparr>,
                            zero_entry]\<rparr>\<rparr>,
          od_state = 1\<rparr>"

text \<open>\<open>od0_front\<close> after \<^verbatim>\<open>move_to_end(12, last=False)\<close>, which needs no resize.\<close>

definition od0_front_moved :: PyODictObject where
  "od0_front_moved = \<lparr>od_dict = \<lparr>ma_used = 3, ma_offset = 1,
            ma_keys = \<lparr>dk_addr = 2, dk_size = 16, dk_usable = 2, dk_nentries = 8,
              dk_indices = [-1, -1, -1, -1, -1, -1, -1, -1, -1, -1, 3, 2, 1, -1, -1, -1],
              dk_entries = [zero_entry,
                            \<lparr>me_hash = 12, me_key = 12, me_value = 102\<rparr>,
                            \<lparr>me_hash = 11, me_key = 11, me_value = 101\<rparr>,
                            \<lparr>me_hash = 10, me_key = 10, me_value = 100\<rparr>,
                            zero_entry, zero_entry, zero_entry, zero_entry, zero_entry,
                            zero_entry]\<rparr>\<rparr>,
          od_state = 2\<rparr>"

text \<open>
  \<open>od0\<close> after the resize of \<^verbatim>\<open>move_to_end(11, last=False)\<close>, before the relocation: 16
  cells, 3 reserved leading slots.
\<close>

definition od0_resized :: PyDictObject where
  "od0_resized = \<lparr>ma_used = 3, ma_offset = 3,
            ma_keys = \<lparr>dk_addr = 2, dk_size = 16, dk_usable = 4, dk_nentries = 6,
              dk_indices = [-1, -1, -1, -1, -1, -1, -1, -1, -1, -1, 3, 4, 5, -1, -1, -1],
              dk_entries = [zero_entry, zero_entry, zero_entry,
                            \<lparr>me_hash = 10, me_key = 10, me_value = 100\<rparr>,
                            \<lparr>me_hash = 11, me_key = 11, me_value = 101\<rparr>,
                            \<lparr>me_hash = 12, me_key = 12, me_value = 102\<rparr>,
                            zero_entry, zero_entry, zero_entry, zero_entry]\<rparr>\<rparr>"

text \<open>
  Keys 10 to 14 inserted in this order into a table of 8 cells: its 5 entry slots are
  all taken.
\<close>

definition od_full :: PyODictObject where
  "od_full = \<lparr>od_dict = \<lparr>ma_used = 5, ma_offset = 0,
            ma_keys = \<lparr>dk_addr = 1, dk_size = 8, dk_usable = 0, dk_nentries = 5,
              dk_indices = [-1, -1, 0, 1, 2, 3, 4, -1],
              dk_entries = [\<lparr>me_hash = 10, me_key = 10, me_value = 100\<rparr>,
                            \<lparr>me_hash = 11, me_key = 11, me_value = 101\<rparr>,
                            \<lparr>me_hash = 12, me_key = 12, me_value = 102\<rparr>,
                            \<lparr>me_hash = 13, me_key = 13, me_value = 103\<rparr>,
                            \<lparr>me_hash = 14, me_key = 14, me_value = 104\<rparr>]\<rparr>\<rparr>,
          od_state = 0\<rparr>"

text \<open>An empty ordered dictionary.\<close>

definition od_empty :: PyODictObject where
  "od_empty = \<lparr>od_dict = \<lparr>ma_used = 0, ma_offset = 0,
            ma_keys = \<lparr>dk_addr = 1, dk_size = 8, dk_usable = 5, dk_nentries = 0,
              dk_indices = [-1, -1, -1, -1, -1, -1, -1, -1],
              dk_entries = [zero_entry, zero_entry, zero_entry, zero_entry, zero_entry]\<rparr>\<rparr>,
          od_state = 0\<rparr>"

text \<open>The store that holds the given dictionary (at every address).\<close>

definition store_of :: "PyODictObject \<Rightarrow> odict_store" where
  "store_of od = (\<lambda>a. od)"

text \<open>The forward key iterator created on \<open>od0\<close>, which lives at address 1.\<close>

definition di0 :: odictiterobject where
  "di0 = \<lparr>kind = 2, di_odict = 1, di_keys = 1, di_size = 3, di_state = 0,
          di_pos = 0, di_result = 7\<rparr>"

section \<open>Properties\<close>

subsection \<open>Iterators on an empty dictionary\<close>

lemma iternext_cleared:
  "di_odict di = NULL \<Longrightarrow> odictiter_iternext st di r t = (StopIteration, di)"
  by (simp add: odictiter_iternext_def)

lemma iter_run_cleared:
  "di_odict di = NULL \<Longrightarrow> iter_run di sts = replicate (length sts) StopIteration"
  by (induction sts arbitrary: di) (auto simp: iternext_cleared)

text \<open>
  Claim C10. An iterator created on an ordered dictionary whose live-entry count is 0
  holds no reference to the dictionary (\<open>di_odict\<close> is \<open>NULL\<close>), and every advance of
  it reports plain exhaustion, whatever the store has become in between (\<open>sts\<close> lists
  the store at each advance): neither \<open>MutatedDuringIteration\<close> nor
  \<open>SizeChangedDuringIteration\<close> is ever reported.
\<close>

theorem empty_iterator_exhausted:
  assumes "PyODict_SIZE (st od) = 0"
      and "odictiter_new st od k gc_new tuple = Some di"
  shows "di_odict di = NULL \<and> iter_run di sts = replicate (length sts) StopIteration"
proof -
  from assms have "di_odict di = NULL"
    by (auto simp: odictiter_new_def Let_def split: if_splits)
  then show ?thesis by (simp add: iter_run_cleared)
qed

theorem empty_iterator_exhausted_witness:
  "PyODict_SIZE (store_of od_empty 1) = 0
   \<and> odictiter_new (store_of od_empty) 1 odict_ITER_KEYS True 7
       = Some \<lparr>kind = 2, di_odict = NULL, di_keys = NULL, di_size = 0, di_state = -1,
               di_pos = -1, di_result = 7\<rparr>
   \<and> iter_run \<lparr>kind = 2, di_odict = NULL, di_keys = NULL, di_size = 0, di_state = -1,
               di_pos = -1, di_result = 7\<rparr>
        [(store_of od0, True, 7), (store_of od0_inserted, False, NULL)]
       = [StopIteration, StopIteration]"
proof -
  have size: "PyODict_SIZE (store_of od_empty 1) = 0"
    by (simp add: PyODict_SIZE_def store_of_def od_empty_def)
  have new: "odictiter_new (store_of od_empty) 1 odict_ITER_KEYS True 7
       = Some \<lparr>kind = 2, di_odict = NULL, di_keys = NULL, di_size = 0, di_state = -1,
               di_pos = -1, di_result = 7\<rparr>"
    by (simp add: odictiter_new_def PyODict_SIZE_def store_of_def od_empty_def
        odict_ITER_KEYS_def odict_ITER_VALUES_def odict_ITER_REVERSED_def)
  from empty_iterator_exhausted [OF size new,
      of "[(store_of od0, True, 7), (store_of od0_inserted, False, NULL)]"]
  show ?thesis using size new by simp
qed


subsection \<open>Reversed iteration behind reserved slots\<close>

text \<open>
  After a move to the front the begin offset of \<open>od0_front\<close> is 2 and the slots below
  it are empty. The loop of the reversed iterator stops below the begin offset, but
  exhaustion is tested as \<^verbatim>\<open>pos < 0\<close>: the advance after the last key reads the empty
  slot 1 and hands its \<^verbatim>\<open>NULL\<close> key to \<^verbatim>\<open>Py_INCREF\<close>.
\<close>

lemma reversed_iteration_reads_reserved_slot:
  "odictiter_new (store_of od0_front) 1 (odict_ITER_KEYS OR odict_ITER_REVERSED) True 7
     = Some \<lparr>kind = 3, di_odict = 1, di_keys = 2, di_size = 3, di_state = 1,
             di_pos = 6, di_result = 7\<rparr>
   \<and> iter_run \<lparr>kind = 3, di_odict = 1, di_keys = 2, di_size = 3, di_state = 1,
               di_pos = 6, di_result = 7\<rparr>
        (replicate 4 (store_of od0_front, True, 7))
     = [Key 12, Key 10, Key 11, Fault]"
  by code_simp

subsection \<open>The state counter\<close>

lemma SetItem_od_state:
  "PyODict_SetItem env od key v = Some (r, od') \<Longrightarrow> od_state od' = od_state od"
  by (auto simp: PyODict_SetItem_def)

lemma DelItem_od_state:
  "PyODict_DelItem env od key = Some (r, od') \<Longrightarrow> od_state od' = od_state od"
  by (auto simp: PyODict_DelItem_def)

lemma move_to_end_od_state:
  assumes "OrderedDict_move_to_end_impl env od key l = Some (r, od')"
      and "dk_lookup env (od_dict od) key (PyObject_Hash env key) = Some ix"
  shows "od_state od' = (if r = Ok \<and> \<not> is_noop od ix l then od_state od + 1 else od_state od)"
  using assms
  by (auto simp: OrderedDict_move_to_end_impl_def Let_def is_noop_def
      split: if_splits option.splits outcome.splits prod.splits)

text \<open>
  Claim C1 fails as stated: the insertion of a new key through \<^verbatim>\<open>PyODict_SetItem\<close>
  leaves \<open>od_state\<close> as it was. Here key 15 is inserted into \<open>od0\<close>.
\<close>

theorem insert_keeps_od_state:
  "PyODict_SetItem env0 od0 15 105 = Some (Ok, od0_inserted)
   \<and> od_state od0_inserted = od_state od0"
proof -
  have "PyODict_SetItem env0 od0 15 105 = Some (Ok, od0_inserted)"
    by code_simp
  moreover have "od_state od0_inserted = od_state od0"
    by (simp add: od0_inserted_def od0_def)
  ultimately show ?thesis by simp
qed

text \<open>
  Claim C1, amended. A successful \<^verbatim>\<open>move_to_end\<close> that is not a no-op, with or without
  a resize, increments \<open>od_state\<close> by exactly one (modulo \<open>2^64\<close>, \<open>od_state\<close> being a
  \<^verbatim>\<open>size_t\<close>); a no-op or failed \<^verbatim>\<open>move_to_end\<close> leaves it unchanged, and so do an
  insert and a delete through \<^verbatim>\<open>PyODict_SetItem\<close> and \<^verbatim>\<open>PyODict_DelItem\<close>, whatever
  their result and whether the insert resizes or not.
\<close>

theorem od_state_changes:
  "(OrderedDict_move_to_end_impl env od key l = Some (r, od') \<longrightarrow>
      dk_lookup env (od_dict od) key (PyObject_Hash env key) = Some ix \<longrightarrow>
      od_state od' = (if r = Ok \<and> \<not> is_noop od ix l then od_state od + 1 else od_state od))
   \<and> (PyODict_SetItem env od k1 v = Some (r1, od1) \<longrightarrow> od_state od1 = od_state od)
   \<and> (PyODict_DelItem env od k2 = Some (r2, od2) \<longrightarrow> od_state od2 = od_state od)"
  using move_to_end_od_state SetItem_od_state DelItem_od_state by blast

lemma od0_move_first_to_end:
  "OrderedDict_move_to_end_impl env0 od0 10 True =
     Some (Ok, \<lparr>od_dict = \<lparr>ma_used = 3, ma_offset = 1,
            ma_keys = \<lparr>dk_addr = 1, dk_size = 8, dk_usable = 1, dk_nentries = 4,
              dk_indices = [-1, -1, 3, 1, 2, -1, -1, -1],
              dk_entries = [zero_entry,
                            \<lparr>me_hash = 11, me_key = 11, me_value = 101\<rparr>,
                            \<lparr>me_hash = 12, me_key = 12, me_value = 102\<rparr>,
                            \<lparr>me_hash = 10, me_key = 10, me_value = 100\<rparr>,
                            zero_entry]\<rparr>\<rparr>,
          od_state = 1\<rparr>)"
  by code_simp

lemma od0_lookup_10:
  "dk_lookup env0 (od_dict od0) 10 (PyObject_Hash env0 10) = Some 0"
  by code_simp

lemma od0_delete_12: "PyODict_DelItem env0 od0 12 = Some (Ok, od0_deleted)"
  by code_simp

lemma od0_insert_15: "PyODict_SetItem env0 od0 15 105 = Some (Ok, od0_inserted)"
  by code_simp

theorem od_state_changes_witness:
  "OrderedDict_move_to_end_impl env0 od0 10 True \<noteq> None
   \<and> dk_lookup env0 (od_dict od0) 10 (PyObject_Hash env0 10) = Some 0
   \<and> od_state (snd (the (OrderedDict_move_to_end_impl env0 od0 10 True))) = od_state od0 + 1
   \<and> PyODict_SetItem env0 od0 15 105 = Some (Ok, od0_inserted)
   \<and> od_state od0_inserted = od_state od0
   \<and> PyODict_DelItem env0 od0 12 = Some (Ok, od0_deleted)
   \<and> od_state od0_deleted = od_state od0"
proof -
  note inst = od_state_changes [where env = env0 and od = od0 and key = 10 and l = True
      and r = Ok and od' = "snd (the (OrderedDict_move_to_end_impl env0 od0 10 True))"
      and ix = 0 and ?k1.0 = 15 and v = 105 and ?r1.0 = Ok and ?od1.0 = od0_inserted
      and ?k2.0 = 12 and ?r2.0 = Ok and ?od2.0 = od0_deleted]
  have noop: "\<not> is_noop od0 0 True"
    by (simp add: is_noop_def od0_def)
  have moved: "od_state (snd (the (OrderedDict_move_to_end_impl env0 od0 10 True))) = od_state od0 + 1"
    using inst noop od0_lookup_10 by (simp add: od0_move_first_to_end)
  have some: "OrderedDict_move_to_end_impl env0 od0 10 True \<noteq> None"
    by (simp add: od0_move_first_to_end)
  have ins: "od_state od0_inserted = od_state od0"
    using inst od0_insert_15 by simp
  have del: "od_state od0_deleted = od_state od0"
    using inst od0_delete_12 by simp
  show ?thesis
    using moved some ins del od0_lookup_10 od0_delete_12 od0_insert_15 by simp
qed

subsection \<open>Iterator invalidation\<close>

lemma insert_new_entry_used:
  "insert_new_entry mp key hash v = Some mp' \<Longrightarrow> ma_used mp' = ma_used mp + 1"
  by (auto simp: insert_new_entry_def Let_def split: option.splits if_splits)

lemma dictresize_used:
  "dictresize env mp m off = Some (r, mp') \<Longrightarrow> ma_used mp' = ma_used mp"
  by (auto simp: dictresize_def Let_def split: option.splits if_splits)

lemma SetItem_new_key_used:
  assumes "PyDict_SetItem env mp key v = Some (Ok, mp')"
      and "dk_lookup env mp key (PyObject_Hash env key) = Some DKIX_EMPTY"
  shows "ma_used mp' = ma_used mp + 1"
  using assms
  by (auto simp: PyDict_SetItem_def Let_def DKIX_EMPTY_def DKIX_ERROR_def
      dest!: insert_new_entry_used dictresize_used split: if_splits option.splits prod.splits)

text \<open>
  Claim C2 fails as stated: after the insertion of the new key 15 into \<open>od0\<close>, which
  needs no resize, the next advance of the iterator \<open>di0\<close> created before on \<open>od0\<close>
  fails with \<open>SizeChangedDuringIteration\<close>, not with \<open>MutatedDuringIteration\<close>.
\<close>

theorem insert_then_next_size_changed:
  "odictiter_new (store_of od0) 1 odict_ITER_KEYS True 7 = Some di0
   \<and> PyODict_SetItem env0 od0 15 105 = Some (Ok, od0_inserted)
   \<and> odictiter_iternext (store_of od0_inserted) di0 True 7 =
       (SizeChangedDuringIteration, di0\<lparr>di_size := -1\<rparr>)"
proof -
  have "odictiter_new (store_of od0) 1 odict_ITER_KEYS True 7 = Some di0"
    by code_simp
  moreover have "PyODict_SetItem env0 od0 15 105 = Some (Ok, od0_inserted)"
    by code_simp
  moreover have "odictiter_iternext (store_of od0_inserted) di0 True 7 =
       (SizeChangedDuringIteration, di0\<lparr>di_size := -1\<rparr>)"
    by code_simp
  ultimately show ?thesis by simp
qed

text \<open>
  Claim C2, amended. An iterator created on a non-empty ordered dictionary snapshots
  the state counter, the live-entry count and the address of the key table. If a new
  key is then inserted, the next advance of the iterator fails: with
  \<open>MutatedDuringIteration\<close> when the insertion has replaced the key table (a resize),
  and with \<open>SizeChangedDuringIteration\<close> otherwise. (\<open>a\<close> is the address of the
  dictionary in the store \<open>st\<close>.)
\<close>

theorem insert_invalidates_iterator:
  assumes new: "odictiter_new st a k gc_new tuple = Some di"
      and addr: "a \<noteq> NULL"
      and nonempty: "0 < PyODict_SIZE (st a)"
      and absent: "dk_lookup env (od_dict (st a)) key (PyObject_Hash env key) = Some DKIX_EMPTY"
      and ins: "PyODict_SetItem env (st a) key v = Some (Ok, od')"
  shows "di_state di = od_state (st a) \<and> di_size di = PyODict_SIZE (st a)
       \<and> di_keys di = dk_addr (ma_keys (od_dict (st a)))
       \<and> fst (odictiter_iternext (st(a := od')) di reusable tuple') =
           (if dk_addr (ma_keys (od_dict od')) \<noteq> dk_addr (ma_keys (od_dict (st a)))
            then MutatedDuringIteration else SizeChangedDuringIteration)"
proof -
  from new nonempty have di: "di_state di = od_state (st a)" "di_size di = PyODict_SIZE (st a)"
    "di_keys di = dk_addr (ma_keys (od_dict (st a)))" "di_odict di = a"
    by (auto simp: odictiter_new_def Let_def split: if_splits)
  from ins have st: "od_state od' = od_state (st a)"
    by (rule SetItem_od_state)
  from ins obtain mp' where "PyDict_SetItem env (od_dict (st a)) key v = Some (Ok, mp')"
    and "od_dict od' = mp'"
    by (auto simp: PyODict_SetItem_def)
  with absent have "ma_used (od_dict od') = ma_used (od_dict (st a)) + 1"
    using SetItem_new_key_used by blast
  then show ?thesis using di st addr
    by (auto simp: odictiter_iternext_def Let_def PyODict_SIZE_def)
qed


theorem insert_invalidates_iterator_witness:
  "odictiter_new (store_of od0) 1 odict_ITER_KEYS True 7 = Some di0
   \<and> 0 < PyODict_SIZE (store_of od0 1)
   \<and> dk_lookup env0 (od_dict (store_of od0 1)) 15 (PyObject_Hash env0 15) = Some DKIX_EMPTY
   \<and> PyODict_SetItem env0 (store_of od0 1) 15 105 = Some (Ok, od0_inserted)
   \<and> di_state di0 = od_state od0 \<and> di_size di0 = PyODict_SIZE od0
   \<and> fst (odictiter_iternext ((store_of od0)(1 := od0_inserted)) di0 True 7) =
         SizeChangedDuringIteration"
proof -
  have new: "odictiter_new (store_of od0) 1 odict_ITER_KEYS True 7 = Some di0"
    by code_simp
  have addr: "(1::nat) \<noteq> NULL"
    by simp
  have nonempty: "0 < PyODict_SIZE (store_of od0 1)"
    by code_simp
  have absent:
    "dk_lookup env0 (od_dict (store_of od0 1)) 15 (PyObject_Hash env0 15) = Some DKIX_EMPTY"
    by code_simp
  have ins: "PyODict_SetItem env0 (store_of od0 1) 15 105 = Some (Ok, od0_inserted)"
    by code_simp
  have same:
    "dk_addr (ma_keys (od_dict od0_inserted)) = dk_addr (ma_keys (od_dict (store_of od0 1)))"
    by code_simp
  have st: "store_of od0 1 = od0"
    by (simp add: store_of_def)
  from insert_invalidates_iterator [OF new addr nonempty absent ins, of True 7]
  show ?thesis using new nonempty absent ins same st by simp
qed

subsection \<open>The outcomes of \<^verbatim>\<open>move_to_end\<close>\<close>

lemma dictresize_failed:
  "dictresize env mp m off = Some (r, mp') \<Longrightarrow> r < 0 \<Longrightarrow>
     new_keys_object env (resize_capacity m) = None \<and> mp' = mp"
  by (auto simp: dictresize_def Let_def split: option.splits if_splits)

lemma move_to_end_last_outcome:
  "move_to_end_last env mp key hash ix offset = Some (r, mp') \<Longrightarrow>
   (r = Ok \<or> r = AllocationFailed) \<and>
   (r = AllocationFailed \<longrightarrow> mp' = mp \<and> dk_usable (ma_keys mp) = 0 \<and>
      new_keys_object env (resize_capacity (GROWTH_RATE mp + offset)) = None)"
  by (auto simp: move_to_end_last_def resize_and_find_def Let_def dest: dictresize_failed
      split: option.splits if_splits sum.splits prod.splits)

lemma move_to_end_first_outcome:
  "move_to_end_first env mp key hash ix offset = Some (r, mp') \<Longrightarrow>
   (r = Ok \<or> r = AllocationFailed) \<and>
   (r = AllocationFailed \<longrightarrow> mp' = mp \<and> offset = 0 \<and>
      new_keys_object env (resize_capacity (GROWTH_RATE mp + (ma_used mp div 2 + 2))) = None)"
  by (auto simp: move_to_end_first_def resize_and_find_def Let_def dest: dictresize_failed
      split: option.splits if_splits sum.splits prod.splits)

text \<open>
  Claim C8 fails as stated: \<^verbatim>\<open>move_to_end\<close> of key 18 on \<open>od0\<close> probes the cell of
  key 10, the comparison of the two keys fails, the lookup returns \<open>DKIX_ERROR\<close> and
  the call fails with that exception: the outcome is none of \<open>Ok\<close>, \<open>NotFound\<close>,
  \<open>AllocationFailed\<close>. The same holds for key 99, whose hash cannot be computed.
\<close>

theorem move_to_end_comparison_failed:
  "OrderedDict_move_to_end_impl env0 od0 18 True = Some (ComparisonFailed, od0)
   \<and> OrderedDict_move_to_end_impl env0 od0 99 True = Some (HashFailed, od0)"
proof -
  have "OrderedDict_move_to_end_impl env0 od0 18 True = Some (ComparisonFailed, od0)"
    by code_simp
  moreover have "OrderedDict_move_to_end_impl env0 od0 99 True = Some (HashFailed, od0)"
    by code_simp
  ultimately show ?thesis by simp
qed

text \<open>
  Claim C8, amended. The outcome of \<^verbatim>\<open>move_to_end(key, last)\<close> is exactly one of \<open>Ok\<close>,
  \<open>NotFound\<close>, \<open>AllocationFailed\<close>, \<open>ComparisonFailed\<close> and \<open>HashFailed\<close>:
  \<open>HashFailed\<close> exactly when the dictionary is not empty and hashing the key fails,
  \<open>ComparisonFailed\<close> exactly when the lookup of the key fails in a comparison,
  \<open>NotFound\<close> exactly when the dictionary is empty or the lookup misses,
  \<open>AllocationFailed\<close> only when the key table of the resize cannot be allocated; every
  outcome but \<open>Ok\<close> leaves the dictionary as it was.
\<close>

theorem move_to_end_outcomes:
  assumes "OrderedDict_move_to_end_impl env od key l = Some (r, od')"
  shows "r \<in> {Ok, NotFound, AllocationFailed, ComparisonFailed, HashFailed}
    \<and> (r = HashFailed \<longleftrightarrow> \<not> odict_EMPTY od \<and> PyObject_Hash env key = -1)
    \<and> (r = ComparisonFailed \<longleftrightarrow> \<not> odict_EMPTY od \<and> PyObject_Hash env key \<noteq> -1
          \<and> dk_lookup env (od_dict od) key (PyObject_Hash env key) = Some DKIX_ERROR)
    \<and> (r = NotFound \<longleftrightarrow> odict_EMPTY od \<or> (PyObject_Hash env key \<noteq> -1
          \<and> dk_lookup env (od_dict od) key (PyObject_Hash env key) = Some DKIX_EMPTY))
    \<and> (r = AllocationFailed \<longrightarrow>
          new_keys_object env (resize_capacity (GROWTH_RATE (od_dict od) +
             (if l then ma_offset (od_dict od) else ma_used (od_dict od) div 2 + 2))) = None)
    \<and> (r \<noteq> Ok \<longrightarrow> od' = od)"
proof (cases "odict_EMPTY od \<or> PyObject_Hash env key = -1")
  case True
  with assms show ?thesis
    by (auto simp: OrderedDict_move_to_end_impl_def Let_def split: if_splits)
next
  case False
  with assms obtain ix
    where ix: "dk_lookup env (od_dict od) key (PyObject_Hash env key) = Some ix"
    by (auto simp: OrderedDict_move_to_end_impl_def Let_def split: if_splits option.splits)
  show ?thesis
  proof (cases "ix = DKIX_EMPTY \<or> ix = DKIX_ERROR")
    case True
    with assms False ix show ?thesis
      by (auto simp: OrderedDict_move_to_end_impl_def Let_def DKIX_EMPTY_def DKIX_ERROR_def
          split: if_splits)
  next
    case found: False
    with assms False ix show ?thesis
      by (cases r)
        (auto simp: OrderedDict_move_to_end_impl_def Let_def DKIX_EMPTY_def DKIX_ERROR_def
          dest!: move_to_end_last_outcome move_to_end_first_outcome
          split: if_splits option.splits outcome.splits prod.splits)
  qed
qed

theorem move_to_end_outcomes_witness:
  "OrderedDict_move_to_end_impl env_nomem od0 11 False = Some (AllocationFailed, od0)
   \<and> new_keys_object env_nomem (resize_capacity (GROWTH_RATE (od_dict od0) +
        (ma_used (od_dict od0) div 2 + 2))) = None"
proof -
  have run: "OrderedDict_move_to_end_impl env_nomem od0 11 False = Some (AllocationFailed, od0)"
    by code_simp
  from move_to_end_outcomes [OF run] show ?thesis using run by simp
qed


subsection \<open>The probe sequence visits every cell\<close>


lemma mod4_aux: "(x::int) mod 4 = 1 \<Longrightarrow> \<exists>q. x + 1 = 2 * q \<and> odd q"
  by presburger

lemma mod4_aux2: "(x::int) mod 8 = 5 \<Longrightarrow> (x - 1) mod 8 \<noteq> 0"
  by presburger

lemma five_pow_mod4: "(5::int) ^ e mod 4 = 1"
proof -
  have "(5::int) ^ e mod 4 = (5 mod 4) ^ e mod 4"
    by (simp only: power_mod)
  then show ?thesis by simp
qed

lemma five_pow_odd_mod8:
  assumes "odd d"
  shows "(5::int) ^ d mod 8 = 5"
proof -
  from assms obtain e where d: "d = 2 * e + 1" by (auto elim: oddE)
  have "(5::int) ^ d = 25 ^ e * 5"
    by (simp add: d power_mult)
  moreover have "(25::int) ^ e mod 8 = 1"
  proof -
    have "(25::int) ^ e mod 8 = (25 mod 8) ^ e mod 8"
      by (simp only: power_mod)
    then show ?thesis by simp
  qed
  ultimately have "(5::int) ^ d mod 8 = (1 * 5) mod 8"
    by (metis mod_mult_left_eq)
  then show ?thesis by simp
qed

lemma order_of_five:
  "2 ^ (k + 2) dvd ((5::int) ^ d - 1) \<Longrightarrow> 2 ^ k dvd d"
proof (induction k arbitrary: d)
  case 0
  then show ?case by simp
next
  case (Suc k)
  have "(8::int) dvd 2 ^ (Suc k + 2)"
    by (simp add: power_add)
  then have eight: "(8::int) dvd 5 ^ d - 1"
    using Suc.prems by (rule dvd_trans)
  have "even d"
  proof (rule ccontr)
    assume "odd d"
    then have "(5::int) ^ d mod 8 = 5" by (rule five_pow_odd_mod8)
    then have "((5::int) ^ d - 1) mod 8 \<noteq> 0" by (rule mod4_aux2)
    moreover from eight have "((5::int) ^ d - 1) mod 8 = 0" by (rule dvd_imp_mod_0)
    ultimately show False by contradiction
  qed
  then obtain e where d: "d = 2 * e" by (auto elim: evenE)
  have fact: "(5::int) ^ d - 1 = (5 ^ e - 1) * (5 ^ e + 1)"
    by (simp add: d power_mult power2_eq_square algebra_simps)
  obtain q where q: "(5::int) ^ e + 1 = 2 * q" and oddq: "odd q"
    using mod4_aux [OF five_pow_mod4 [of e]] by blast
  define M :: int where "M = 2 ^ (k + 2)"
  have "(5::int) ^ d - 1 = 2 * ((5 ^ e - 1) * q)"
    by (simp only: fact q)
  moreover have "(2::int) ^ (Suc k + 2) = 2 * M"
    by (simp add: M_def)
  ultimately have "2 * M dvd 2 * ((5 ^ e - 1) * q)"
    using Suc.prems by (simp only:)
  then have "M dvd (5 ^ e - 1) * q"
    by (simp only: dvd_mult_cancel_left) simp
  moreover have "coprime M q"
    unfolding M_def coprime_power_left_iff
    using oddq by (simp add: coprime_left_2_iff_odd)
  ultimately have "M dvd 5 ^ e - 1"
    by (simp only: coprime_dvd_mult_left_iff)
  then have "(2::int) ^ (k + 2) dvd 5 ^ e - 1"
    by (simp only: M_def)
  then have "2 ^ k dvd e" by (rule Suc.IH)
  then show ?case by (simp add: d)
qed



lemma lcg_closed_form:
  fixes x :: nat
  shows "int (4 * (lcg_step k ^^ m) x + 1) mod 2 ^ (k + 2) = (5 ^ m * int (4 * x + 1)) mod 2 ^ (k + 2)"
proof (induction m)
  case 0
  then show ?case by simp
next
  case (Suc m)
  define M :: int where "M = 2 ^ (k + 2)"
  define y where "y = (lcg_step k ^^ m) x"
  have M4: "M = 4 * 2 ^ k" by (simp add: M_def)
  have "(lcg_step k ^^ Suc m) x = (5 * y + 1) mod 2 ^ k"
    by (simp add: y_def lcg_step_def)
  then have "int (4 * (lcg_step k ^^ Suc m) x + 1) = 4 * ((5 * int y + 1) mod 2 ^ k) + 1"
    by (simp add: zmod_int add.commute)
  also have "4 * ((5 * int y + 1) mod 2 ^ k) = (4 * (5 * int y + 1)) mod M"
    by (simp only: M4 mult_mod_right)
  finally have "int (4 * (lcg_step k ^^ Suc m) x + 1) mod M = ((4 * (5 * int y + 1)) mod M + 1) mod M"
    by (simp add: add.commute)
  also have "\<dots> = (4 * (5 * int y + 1) + 1) mod M"
    by (simp only: mod_add_left_eq)
  also have "4 * (5 * int y + 1) + 1 = 5 * int (4 * y + 1)"
    by simp
  also have "(5 * int (4 * y + 1)) mod M = (5 * (int (4 * y + 1) mod M)) mod M"
    by (simp only: mod_mult_right_eq)
  also have "int (4 * y + 1) mod M = (5 ^ m * int (4 * x + 1)) mod M"
    using Suc.IH by (simp only: y_def M_def)
  also have "(5 * ((5 ^ m * int (4 * x + 1)) mod M)) mod M = (5 * (5 ^ m * int (4 * x + 1))) mod M"
    by (simp only: mod_mult_right_eq)
  finally show ?case by (simp add: M_def algebra_simps)
qed

lemma lcg_inj:
  fixes x :: nat
  assumes "a < b" and "b < 2 ^ k" and eq: "(lcg_step k ^^ a) x = (lcg_step k ^^ b) x"
  shows False
proof -
  define M :: int where "M = 2 ^ (k + 2)"
  define u :: int where "u = int (4 * x + 1)"
  have "(5 ^ a * u) mod M = (5 ^ b * u) mod M"
    using lcg_closed_form [where k = k and m = a and x = x]
      lcg_closed_form [where k = k and m = b and x = x] eq
    by (simp only: M_def u_def)
  then have "M dvd 5 ^ b * u - 5 ^ a * u"
    by (metis mod_eq_dvd_iff)
  moreover have "(5::int) ^ b = 5 ^ a * 5 ^ (b - a)"
    using \<open>a < b\<close> by (simp flip: power_add)
  ultimately have "M dvd (5 ^ (b - a) - 1) * (5 ^ a * u)"
    by (simp add: algebra_simps)
  moreover have "coprime M (5 ^ a * u)"
  proof -
    have "odd (5 ^ a * u)" by (simp add: u_def)
    then show ?thesis
      unfolding M_def coprime_power_left_iff by (simp add: coprime_left_2_iff_odd)
  qed
  ultimately have "M dvd 5 ^ (b - a) - 1"
    by (simp only: coprime_dvd_mult_left_iff)
  then have "2 ^ k dvd b - a"
    unfolding M_def by (rule order_of_five)
  then have "2 ^ k \<le> b - a"
    using \<open>a < b\<close> by (intro dvd_imp_le) simp_all
  with \<open>b < 2 ^ k\<close> show False by simp
qed

lemma lcg_full_period:
  fixes x c :: nat
  assumes "x < 2 ^ k" and "c < 2 ^ k"
  shows "\<exists>m < 2 ^ k. (lcg_step k ^^ m) x = c"
proof -
  let ?G = "\<lambda>m. (lcg_step k ^^ m) x"
  have range: "?G m < 2 ^ k" for m
    by (cases m) (simp_all add: lcg_step_def assms)
  have "inj_on ?G {..<2 ^ k}"
  proof (rule inj_onI)
    fix a b assume "a \<in> {..<(2::nat) ^ k}" "b \<in> {..<(2::nat) ^ k}" "?G a = ?G b"
    then show "a = b"
      using lcg_inj [where a = a and b = b and k = k and x = x]
        lcg_inj [where a = b and b = a and k = k and x = x]
      by (cases a b rule: linorder_cases) (auto simp: lcg_step_def)
  qed
  then have "card (?G ` {..<2 ^ k}) = 2 ^ k"
    by (simp add: card_image)
  moreover have "?G ` {..<2 ^ k} \<subseteq> {..<2 ^ k}"
    using range by auto
  ultimately have "?G ` {..<2 ^ k} = {..<2 ^ k}"
    by (intro card_subset_eq) simp_all
  with \<open>c < 2 ^ k\<close> have "c \<in> ?G ` {..<2 ^ k}" by simp
  then show ?thesis by auto
qed




lemma probe_next_funpow_fst:
  "fst ((probe_next msk ^^ t) (p, i)) = drop_bit (PERTURB_SHIFT * t) p"
proof (induction t)
  case 0
  then show ?case by simp
next
  case (Suc t)
  then show ?case
    by (simp add: probe_next_def case_prod_unfold drop_bit_drop_bit add.commute)
qed

lemma perturb_exhausted:
  "fst ((probe_next msk ^^ 13) (p, i)) = 0"
  by (simp only: probe_next_funpow_fst) (simp add: PERTURB_SHIFT_def drop_bit_word_beyond)

lemma probe_next_snd_lt:
  "unat (snd (probe_next (mask k) s)) < 2 ^ k"
proof -
  obtain p i where s: "s = (p, i)" by (cases s)
  have "uint ((i * 5 + drop_bit PERTURB_SHIFT p + 1) AND mask k) < 2 ^ k"
    by (rule and_mask_lt_2p)
  then have "uint (snd (probe_next (mask k) s)) < 2 ^ k"
    by (simp add: probe_next_def s and.commute)
  then have "int (unat (snd (probe_next (mask k) s))) < int (2 ^ k)"
    by (simp only: uint_nat [symmetric] of_nat_power of_nat_numeral)
  then show ?thesis
    by (simp only: of_nat_less_iff)
qed

lemma unat_probe_next_zero:
  assumes "k \<le> 64"
  shows "unat (snd (probe_next (mask k) (0, i))) = lcg_step k (unat i)"
proof -
  have "snd (probe_next (mask k) (0, i)) = take_bit k (i * 5 + 1)"
    by (simp add: probe_next_def take_bit_eq_mask and.commute)
  moreover have "unat (take_bit k (i * 5 + 1)) = take_bit k (unat (i * 5 + 1))"
    by (rule unsigned_take_bit_eq)
  ultimately have "unat (snd (probe_next (mask k) (0, i))) = unat (i * 5 + 1) mod 2 ^ k"
    by (simp only: take_bit_eq_mod)
  also have "unat (i * 5 + 1) = (unat i * 5 + 1) mod 2 ^ 64"
    by (simp add: unat_word_ariths mod_Suc_eq)
  also have "(unat i * 5 + 1) mod 2 ^ 64 mod 2 ^ k = (unat i * 5 + 1) mod 2 ^ k"
    using assms by (intro mod_mod_cancel le_imp_power_dvd)
  finally show ?thesis by (simp add: lcg_step_def mult.commute)
qed

lemma probe_next_zero_funpow:
  assumes "k \<le> 64"
  shows "(probe_next (mask k) ^^ m) (0, i) = (0, snd ((probe_next (mask k) ^^ m) (0, i)))
         \<and> unat (snd ((probe_next (mask k) ^^ m) (0, i))) = (lcg_step k ^^ m) (unat i)"
proof (induction m)
  case 0
  then show ?case by simp
next
  case (Suc m)
  define s where "s = snd ((probe_next (mask k) ^^ m) (0, i))"
  from Suc have st: "(probe_next (mask k) ^^ m) (0, i) = (0, s)"
    and un: "unat s = (lcg_step k ^^ m) (unat i)"
    by (simp_all add: s_def)
  have "(probe_next (mask k) ^^ Suc m) (0, i) = probe_next (mask k) (0, s)"
    by (simp add: st)
  moreover have "fst (probe_next (mask k) (0, s)) = 0"
    by (simp add: probe_next_def)
  moreover have "unat (snd (probe_next (mask k) (0, s))) = lcg_step k (unat s)"
    using assms by (rule unat_probe_next_zero)
  ultimately show ?case
    by (simp add: un prod_eq_iff)
qed

lemma probe_visits_every_cell:
  assumes k: "k \<le> 64" and c: "c < 2 ^ k"
  shows "\<exists>t. unat (snd ((probe_next (mask k) ^^ t) (p, i))) = c"
proof -
  define s13 where "s13 = (probe_next (mask k) ^^ 13) (p, i)"
  have "fst s13 = 0"
    unfolding s13_def by (rule perturb_exhausted)
  then have s13: "s13 = (0, snd s13)"
    by (simp add: prod_eq_iff)
  have "s13 = probe_next (mask k) ((probe_next (mask k) ^^ 12) (p, i))"
    unfolding s13_def by (simp add: numeral_eq_Suc)
  then have "unat (snd s13) < 2 ^ k"
    by (simp only: probe_next_snd_lt)
  from lcg_full_period [OF this c] obtain m where m: "(lcg_step k ^^ m) (unat (snd s13)) = c"
    by blast
  have "(probe_next (mask k) ^^ (m + 13)) (p, i) = (probe_next (mask k) ^^ m) (0, snd s13)"
    using s13 by (simp add: funpow_add s13_def)
  then have "unat (snd ((probe_next (mask k) ^^ (m + 13)) (p, i))) = c"
    using probe_next_zero_funpow [OF k, of m "snd s13"] m by simp
  then show ?thesis by blast
qed


subsection \<open>\<^verbatim>\<open>lookdict_ident\<close>\<close>

lemma lookdict_ident_loop_first_stop:
  assumes "ident_stop keys key (snd ((probe_next msk ^^ t) (p, i)))"
      and "\<forall>t' < t. \<not> ident_stop keys key (snd ((probe_next msk ^^ t') (p, i)))"
  shows "lookdict_ident_loop keys key msk p i =
           Some (dk_get_index keys (unat (snd ((probe_next msk ^^ t) (p, i)))))"
  using assms
proof (induction t arbitrary: p i)
  case 0
  then show ?case
    by (subst lookdict_ident_loop.simps) (auto simp: ident_stop_def Let_def)
next
  case (Suc t)
  from Suc.prems(2) have here: "\<not> ident_stop keys key i"
    by (metis funpow_0 snd_conv zero_less_Suc)
  define p' where "p' = drop_bit PERTURB_SHIFT p"
  define i' where "i' = msk AND (i * 5 + drop_bit PERTURB_SHIFT p + 1)"
  have next_state: "probe_next msk (p, i) = (p', i')"
    by (simp add: probe_next_def p'_def i'_def)
  have shift: "(probe_next msk ^^ Suc n) (p, i) = (probe_next msk ^^ n) (p', i')" for n
    by (simp only: funpow_Suc_right o_apply next_state)
  have "ident_stop keys key (snd ((probe_next msk ^^ t) (p', i')))"
    using Suc.prems(1) by (simp only: shift)
  moreover have "\<forall>t' < t. \<not> ident_stop keys key (snd ((probe_next msk ^^ t') (p', i')))"
  proof (intro allI impI)
    fix t' assume "t' < t"
    then have "Suc t' < Suc t" by simp
    with Suc.prems(2) have "\<not> ident_stop keys key (snd ((probe_next msk ^^ Suc t') (p, i)))"
      by blast
    then show "\<not> ident_stop keys key (snd ((probe_next msk ^^ t') (p', i')))"
      unfolding shift .
  qed
  ultimately have "lookdict_ident_loop keys key msk p' i' =
      Some (dk_get_index keys (unat (snd ((probe_next msk ^^ t) (p', i')))))"
    by (rule Suc.IH)
  moreover have "lookdict_ident_loop keys key msk p i = lookdict_ident_loop keys key msk p' i'"
    using here
    by (subst lookdict_ident_loop.simps) (auto simp: ident_stop_def Let_def p'_def i'_def)
  ultimately show ?case
    by (simp only: shift)
qed

lemma DK_MASK_pow2:
  assumes "dk_size keys = 2 ^ k"
  shows "DK_MASK keys = mask k"
  by (simp add: DK_MASK_def assms mask_eq_exp_minus_1)

lemma index_table_ok_size:
  assumes "index_table_ok keys"
  obtains k where "k \<le> 64" and "dk_size keys = 2 ^ k" and "length (dk_indices keys) = 2 ^ k"
proof -
  from assms obtain k where k: "k \<in> set [3..<63]" "dk_size keys = 2 ^ k"
    unfolding index_table_ok_def by blast
  from assms have "int (length (dk_indices keys)) = dk_size keys"
    unfolding index_table_ok_def by blast
  with k have "int (length (dk_indices keys)) = int (2 ^ k)" by simp
  then have "length (dk_indices keys) = 2 ^ k"
    by (simp only: of_nat_eq_iff)
  with k show ?thesis
    by (intro that [of k]) auto
qed

lemma dk_get_index_nth: "dk_get_index keys i = dk_indices keys ! i"
  by (simp add: dk_get_index_def Let_def)

text \<open>
  Claim C6. On every key table whose hash index has the shape \<open>index_table_ok\<close> and
  at least one EMPTY cell, \<^verbatim>\<open>lookdict_ident\<close> returns: its result \<open>r\<close> is the content of
  the cell at the first step \<open>t\<close> of the probe sequence (start \<open>hash & mask\<close>, then
  \<open>perturb >>= 5\<close> and \<open>next = mask & (i*5 + perturb + 1)\<close> per step) where the cell is
  EMPTY or refers to an entry whose key is the very object asked for. So \<open>r\<close> is
  \<open>DKIX_EMPTY\<close> or the index of an entry with the identical key, and never
  \<open>DKIX_ERROR\<close>. The function has no access to the equality callback: the
  environment is not among its arguments.
\<close>

theorem lookdict_ident_returns:
  assumes ok: "index_table_ok keys"
      and empty: "DKIX_EMPTY \<in> set (dk_indices keys)"
  shows "\<exists>r t. lookdict_ident keys key hash = Some r
           \<and> r = dk_get_index keys (unat (snd (probe (DK_MASK keys) hash t)))
           \<and> (\<forall>t' < t. \<not> ident_stop keys key (snd (probe (DK_MASK keys) hash t')))
           \<and> (r = DKIX_EMPTY \<or> (0 \<le> r \<and> nat r < length (dk_entries keys) \<and> me_key (dk_entries keys ! nat r) = key))
           \<and> r \<noteq> DKIX_ERROR"
proof -
  from ok obtain k where k: "k \<le> 64" and size: "dk_size keys = 2 ^ k"
    and len: "length (dk_indices keys) = 2 ^ k"
    by (rule index_table_ok_size)
  have msk: "DK_MASK keys = mask k"
    using size by (rule DK_MASK_pow2)
  let ?pos = "\<lambda>t. snd (probe (DK_MASK keys) hash t)"
  from empty obtain c where c: "c < 2 ^ k" "dk_indices keys ! c = DKIX_EMPTY"
    by (metis in_set_conv_nth len)
  from probe_visits_every_cell [OF k c(1), of hash "hash AND mask k"]
  obtain t0 where "unat (?pos t0) = c"
    by (auto simp: probe_def msk)
  with c have "ident_stop keys key (?pos t0)"
    by (simp add: ident_stop_def dk_get_index_nth)
  then have "\<exists>t. ident_stop keys key (?pos t)" ..
  then have "\<exists>t. ident_stop keys key (?pos t)
      \<and> (\<forall>t' < t. \<not> ident_stop keys key (?pos t'))"
    by (rule exists_least_iff [THEN iffD1])
  then obtain t where t: "ident_stop keys key (?pos t)"
    and least: "\<forall>t' < t. \<not> ident_stop keys key (?pos t')"
    by blast
  define r where "r = dk_get_index keys (unat (?pos t))"
  have run: "lookdict_ident keys key hash = Some r"
    using lookdict_ident_loop_first_stop [where keys = keys and key = key
        and msk = "DK_MASK keys" and t = t and p = hash and i = "hash AND DK_MASK keys"] t least
    by (simp add: lookdict_ident_def Let_def probe_def r_def)
  have pos: "unat (?pos t) < length (dk_indices keys)"
  proof (cases t)
    case 0
    have "uint (hash AND mask k) < 2 ^ k" by (rule and_mask_lt_2p)
    then have "int (unat (hash AND mask k)) < int (2 ^ k)"
      by (simp only: uint_nat [symmetric] of_nat_power of_nat_numeral)
    then have "unat (hash AND mask k) < 2 ^ k"
      by (simp only: of_nat_less_iff)
    then show ?thesis by (simp add: 0 probe_def msk len)
  next
    case (Suc n)
    have "unat (snd (probe_next (mask k) ((probe_next (mask k) ^^ n) (hash, hash AND mask k)))) < 2 ^ k"
      by (rule probe_next_snd_lt)
    then show ?thesis by (simp add: Suc probe_def msk len)
  qed
  then have mem: "r \<in> set (dk_indices keys)"
    by (simp add: r_def dk_get_index_nth)
  from t have "r = DKIX_EMPTY \<or> (0 \<le> r \<and> me_key (dk_entries keys ! nat r) = key)"
    by (simp add: ident_stop_def r_def)
  moreover from ok mem have "0 \<le> r \<longrightarrow> nat r < length (dk_entries keys)"
    unfolding index_table_ok_def by blast
  ultimately have res: "r = DKIX_EMPTY \<or> (0 \<le> r \<and> nat r < length (dk_entries keys) \<and> me_key (dk_entries keys ! nat r) = key)"
    by blast
  then have "r \<noteq> DKIX_ERROR"
    by (auto simp: DKIX_EMPTY_def DKIX_ERROR_def)
  with run least res show ?thesis
    unfolding r_def by blast
qed

theorem lookdict_ident_returns_witness:
  "index_table_ok (ma_keys (od_dict od0))
   \<and> DKIX_EMPTY \<in> set (dk_indices (ma_keys (od_dict od0)))
   \<and> lookdict_ident (ma_keys (od_dict od0)) 12 12 = Some 2
   \<and> lookdict_ident (ma_keys (od_dict od0)) 20 12 = Some DKIX_EMPTY"
proof -
  have ok: "index_table_ok (ma_keys (od_dict od0))"
    by code_simp
  have empty: "DKIX_EMPTY \<in> set (dk_indices (ma_keys (od_dict od0)))"
    by code_simp
  have hit: "lookdict_ident (ma_keys (od_dict od0)) 12 12 = Some 2"
    by code_simp
  have miss: "lookdict_ident (ma_keys (od_dict od0)) 20 12 = Some DKIX_EMPTY"
    by code_simp
  from lookdict_ident_returns [OF ok empty, of 12 12]
  show ?thesis using ok empty hit miss by simp
qed

subsection \<open>The capacity of a resize\<close>

lemma round_up_size_spec:
  "0 < newsize \<Longrightarrow> \<exists>j. newsize = 2 ^ j \<Longrightarrow>
     (\<exists>j. round_up_size newsize minused = 2 ^ j)
     \<and> newsize \<le> round_up_size newsize minused
     \<and> minused \<le> round_up_size newsize minused
     \<and> (round_up_size newsize minused = newsize
         \<or> round_up_size newsize minused div 2 < minused)"
proof (induction newsize minused rule: round_up_size.induct)
  case (1 newsize minused)
  show ?case
  proof (cases "newsize < minused")
    case True
    with "1.prems" have unfold: "round_up_size newsize minused = round_up_size (newsize * 2) minused"
      by (subst round_up_size.simps) simp
    from "1.prems"(2) obtain j where "newsize = 2 ^ j" by blast
    then have "newsize * 2 = 2 ^ Suc j" by simp
    then have pow: "\<exists>j. newsize * 2 = 2 ^ j" by blast
    from "1.prems"(1) have pos: "0 < newsize * 2" by simp
    have cond: "0 < newsize \<and> newsize < minused"
      using True "1.prems"(1) by simp
    note IH = "1.IH" [OF cond pos pow]
    from IH True show ?thesis
      unfolding unfold by auto
  next
    case False
    then have "round_up_size newsize minused = newsize"
      by (subst round_up_size.simps) simp
    with False "1.prems" show ?thesis by auto
  qed
qed

lemma resize_capacity_spec:
  "(\<exists>j. resize_capacity minused = 2 ^ j)
   \<and> 8 \<le> resize_capacity minused
   \<and> minused \<le> resize_capacity minused
   \<and> (resize_capacity minused = 8 \<or> resize_capacity minused div 2 < minused)"
proof -
  have "\<exists>j. (8::int) = 2 ^ j"
    by (rule exI [of _ 3]) simp
  from round_up_size_spec [of 8 minused, OF _ this] show ?thesis
    by (simp add: resize_capacity_def PyDict_MINSIZE_def)
qed

lemma dk_set_index_fields [simp]:
  "dk_size (dk_set_index keys i ix) = dk_size keys"
  "dk_addr (dk_set_index keys i ix) = dk_addr keys"
  "dk_usable (dk_set_index keys i ix) = dk_usable keys"
  "dk_nentries (dk_set_index keys i ix) = dk_nentries keys"
  "dk_entries (dk_set_index keys i ix) = dk_entries keys"
  "length (dk_indices (dk_set_index keys i ix)) = length (dk_indices keys)"
  by (simp_all add: dk_set_index_def Let_def)

lemma build_indices_fields:
  "build_indices keys ix n = Some keys' \<Longrightarrow>
     dk_size keys' = dk_size keys \<and> dk_addr keys' = dk_addr keys
     \<and> dk_usable keys' = dk_usable keys \<and> dk_nentries keys' = dk_nentries keys
     \<and> dk_entries keys' = dk_entries keys
     \<and> length (dk_indices keys') = length (dk_indices keys)"
proof (induction n arbitrary: keys ix)
  case 0
  then show ?case by simp
next
  case (Suc n)
  then show ?case
    by (auto split: option.splits dest!: Suc.IH)
qed

lemma dictresize_size:
  "dictresize env mp minused offset = Some (r, mp') \<Longrightarrow> 0 \<le> r \<Longrightarrow>
     dk_size (ma_keys mp') = resize_capacity minused"
  by (auto simp: dictresize_def Let_def split: option.splits dest!: build_indices_fields)

lemma relocate_size [simp]:
  "dk_size (ma_keys (relocate_to_end mp hashpos ix offset)) = dk_size (ma_keys mp)"
  "dk_size (ma_keys (relocate_to_front mp hashpos ix offset)) = dk_size (ma_keys mp)"
  by (simp_all add: relocate_to_end_def relocate_to_front_def Let_def)

lemma od0_move_to_front:
  "OrderedDict_move_to_end_impl env0 od0 11 False = Some (Ok, od0_front)"
  by code_simp

lemma od0_lookup_11:
  "dk_lookup env0 (od_dict od0) 11 (PyObject_Hash env0 11) = Some 1"
  by code_simp

subsection \<open>The no-op test of a move to the end\<close>

lemma is_last_live_last_slot:
  assumes "ix = dk_nentries (ma_keys mp) - 1" and "0 \<le> ma_offset mp" and "ma_offset mp \<le> ix"
      and "me_value (dk_entries (ma_keys mp) ! nat ix) \<noteq> NULL"
  shows "is_last_live mp ix"
proof -
  from assms have n: "nat (dk_nentries (ma_keys mp)) = Suc (nat ix)" and b: "nat (ma_offset mp) \<le> nat ix"
    by simp_all
  have "[nat (ma_offset mp) ..< Suc (nat ix)] = [nat (ma_offset mp) ..< nat ix] @ [nat ix]"
    using b by simp
  then have "live_slots mp =
      filter (\<lambda>j. me_value (dk_entries (ma_keys mp) ! j) \<noteq> NULL) [nat (ma_offset mp) ..< nat ix] @ [nat ix]"
    using assms(4) by (simp add: live_slots_def n)
  then show ?thesis
    using assms(2,3) by (simp add: is_last_live_def)
qed

text \<open>
  Claim C4 fails as stated: in \<open>od0_deleted\<close> the entry of key 11 (slot 1) is the last
  live slot in iteration order, the hole left by key 12 behind it; yet
  \<^verbatim>\<open>move_to_end(11, last=True)\<close> is not a no-op: it relocates the entry to slot 3 and
  increments \<open>od_state\<close>.
\<close>

theorem last_live_entry_before_hole_is_moved:
  "dk_lookup env0 (od_dict od0_deleted) 11 (PyObject_Hash env0 11) = Some 1
   \<and> is_last_live (od_dict od0_deleted) 1
   \<and> OrderedDict_move_to_end_impl env0 od0_deleted 11 True = Some (Ok, od0_deleted_moved)
   \<and> od_state od0_deleted_moved \<noteq> od_state od0_deleted"
proof -
  have "dk_lookup env0 (od_dict od0_deleted) 11 (PyObject_Hash env0 11) = Some 1"
    by code_simp
  moreover have "is_last_live (od_dict od0_deleted) 1"
    by code_simp
  moreover have "OrderedDict_move_to_end_impl env0 od0_deleted 11 True = Some (Ok, od0_deleted_moved)"
    by code_simp
  moreover have "od_state od0_deleted_moved \<noteq> od_state od0_deleted"
    by (simp add: od0_deleted_moved_def od0_deleted_def)
  ultimately show ?thesis by simp
qed

text \<open>
  Claim C4, amended. For a key present in the map (found at the live entry \<open>ix\<close>),
  \<^verbatim>\<open>move_to_end(key, last=True)\<close> is a no-op (it succeeds and leaves the whole state,
  with its layout, begin offset and state counter, unchanged) if and only if the
  entry is in the last populated slot, \<open>ix = dk_nentries - 1\<close>; the entry is then the
  last live slot in iteration order.
\<close>

theorem move_to_end_last_noop_iff:
  assumes nonempty: "\<not> odict_EMPTY od"
      and hash: "PyObject_Hash env key \<noteq> -1"
      and found: "dk_lookup env (od_dict od) key (PyObject_Hash env key) = Some ix"
      and valid: "0 \<le> ix" "nat ix < length (dk_entries (ma_keys (od_dict od)))"
      and live: "me_value (dk_entries (ma_keys (od_dict od)) ! nat ix) \<noteq> NULL"
      and range: "0 \<le> ma_offset (od_dict od)" "ma_offset (od_dict od) \<le> ix"
  shows "((OrderedDict_move_to_end_impl env od key True = Some (Ok, od))
           \<longleftrightarrow> ix = dk_nentries (ma_keys (od_dict od)) - 1)
       \<and> (ix = dk_nentries (ma_keys (od_dict od)) - 1 \<longrightarrow> is_last_live (od_dict od) ix)"
proof (intro conjI iffI impI)
  assume "ix = dk_nentries (ma_keys (od_dict od)) - 1"
  with nonempty hash found valid
  show "OrderedDict_move_to_end_impl env od key True = Some (Ok, od)"
    by (simp add: OrderedDict_move_to_end_impl_def Let_def DKIX_EMPTY_def DKIX_ERROR_def)
next
  assume run: "OrderedDict_move_to_end_impl env od key True = Some (Ok, od)"
  show "ix = dk_nentries (ma_keys (od_dict od)) - 1"
  proof (rule ccontr)
    assume "ix \<noteq> dk_nentries (ma_keys (od_dict od)) - 1"
    then have "\<not> is_noop od ix True"
      by (simp add: is_noop_def)
    with move_to_end_od_state [OF run found] have "od_state od = od_state od + 1"
      by simp
    then show False by simp
  qed
next
  assume "ix = dk_nentries (ma_keys (od_dict od)) - 1"
  then show "is_last_live (od_dict od) ix"
    using range live by (rule is_last_live_last_slot)
qed

lemma od0_lookup_12:
  "dk_lookup env0 (od_dict od0) 12 (PyObject_Hash env0 12) = Some 2"
  by code_simp

theorem move_to_end_last_noop_iff_witness:
  "\<not> odict_EMPTY od0 \<and> PyObject_Hash env0 12 \<noteq> -1
   \<and> dk_lookup env0 (od_dict od0) 12 (PyObject_Hash env0 12) = Some 2
   \<and> 2 = dk_nentries (ma_keys (od_dict od0)) - 1
   \<and> OrderedDict_move_to_end_impl env0 od0 12 True = Some (Ok, od0)
   \<and> is_last_live (od_dict od0) 2"
proof -
  have nonempty: "\<not> odict_EMPTY od0"
    by (simp add: odict_EMPTY_def od0_def)
  have hash: "PyObject_Hash env0 12 \<noteq> -1"
    by (simp add: env0_def)
  have valid: "(0::int) \<le> 2" "nat 2 < length (dk_entries (ma_keys (od_dict od0)))"
    by (simp_all add: od0_def)
  have live: "me_value (dk_entries (ma_keys (od_dict od0)) ! nat 2) \<noteq> NULL"
    by (simp add: od0_def)
  have range: "0 \<le> ma_offset (od_dict od0)" "ma_offset (od_dict od0) \<le> 2"
    by (simp_all add: od0_def)
  have slot: "2 = dk_nentries (ma_keys (od_dict od0)) - 1"
    by (simp add: od0_def)
  from move_to_end_last_noop_iff [OF nonempty hash od0_lookup_12 valid live range]
  show ?thesis
    using nonempty hash od0_lookup_12 slot by simp
qed

subsection \<open>What the probe loops return\<close>

lemma lookdict_loop_result:
  assumes "lookdict_loop env keys key msk perturb i = Some r"
      and "i \<le> msk" and "unat msk < length (dk_indices keys)"
  shows "r = DKIX_EMPTY \<or> r = DKIX_ERROR \<or> (0 \<le> r \<and> r \<in> set (dk_indices keys))"
  using assms
proof (induction env keys key msk perturb i r rule: lookdict_loop.raw_induct [rotated, consumes 1])
  case (1 loop env keys key msk perturb i r)
  from "1.prems" have pos: "unat i < length (dk_indices keys)"
    by (meson le_less_trans word_le_nat_alt)
  have nxt: "msk AND (i * 5 + drop_bit PERTURB_SHIFT perturb + 1) \<le> msk"
    by (rule word_and_le2)
  from "1.hyps" show ?case
    using "1.IH" [OF _ nxt "1.prems"(2)] pos
    by (auto simp: Let_def dk_get_index_nth split: if_splits)
qed

lemma lookdict_index_loop_result:
  assumes "lookdict_index_loop k index msk perturb i = Some r"
      and "i \<le> msk" and "unat msk < length (dk_indices k)"
  shows "r = DKIX_EMPTY \<or> (0 \<le> r \<and> nat r < length (dk_indices k) \<and> dk_indices k ! nat r = index)"
  using assms
proof (induction k index msk perturb i r rule: lookdict_index_loop.raw_induct [rotated, consumes 1])
  case (1 loop k index msk perturb i r)
  from "1.prems" have pos: "unat i < length (dk_indices k)"
    by (meson le_less_trans word_le_nat_alt)
  have nxt: "msk AND (i * 5 + drop_bit PERTURB_SHIFT perturb + 1) \<le> msk"
    by (rule word_and_le2)
  from "1.hyps" show ?case
    using "1.IH" [OF _ nxt "1.prems"(2)] pos
    by (auto simp: Let_def dk_get_index_nth split: if_splits)
qed

lemma lookdict_ident_loop_result:
  assumes "lookdict_ident_loop keys key msk perturb i = Some r"
      and "i \<le> msk" and "unat msk < length (dk_indices keys)"
  shows "r = DKIX_EMPTY \<or> (0 \<le> r \<and> r \<in> set (dk_indices keys) \<and> me_key (dk_entries keys ! nat r) = key)"
  using assms
proof (induction keys key msk perturb i r rule: lookdict_ident_loop.raw_induct [rotated, consumes 1])
  case (1 loop keys key msk perturb i r)
  from "1.prems" have pos: "unat i < length (dk_indices keys)"
    by (meson le_less_trans word_le_nat_alt)
  have nxt: "msk AND (i * 5 + drop_bit PERTURB_SHIFT perturb + 1) \<le> msk"
    by (rule word_and_le2)
  from "1.hyps" show ?case
    using "1.IH" [OF _ nxt "1.prems"(2)] pos
    by (auto simp: Let_def dk_get_index_nth split: if_splits)
qed

lemma find_empty_slot_loop_result:
  assumes "find_empty_slot_loop keys msk perturb i = Some r"
      and "i \<le> msk" and "unat msk < length (dk_indices keys)"
  shows "r < length (dk_indices keys) \<and> dk_indices keys ! r = DKIX_EMPTY"
  using assms
proof (induction keys msk perturb i r rule: find_empty_slot_loop.raw_induct [rotated, consumes 1])
  case (1 loop keys msk perturb i r)
  from "1.prems" have pos: "unat i < length (dk_indices keys)"
    by (meson le_less_trans word_le_nat_alt)
  have nxt: "msk AND (i * 5 + drop_bit PERTURB_SHIFT perturb + 1) \<le> msk"
    by (rule word_and_le2)
  from "1.hyps" show ?case
    using "1.IH" [OF _ nxt "1.prems"(2)] pos
    by (auto simp: Let_def dk_get_index_nth split: if_splits)
qed

lemma unat_mask_lt:
  "unat (mask k :: 64 word) < 2 ^ k"
proof -
  have "uint ((mask k :: 64 word) AND mask k) < 2 ^ k"
    by (rule and_mask_lt_2p)
  then have "int (unat (mask k :: 64 word)) < int (2 ^ k)"
    by (simp only: and.idem uint_nat [symmetric] of_nat_power of_nat_numeral)
  then show ?thesis
    by (simp only: of_nat_less_iff)
qed

lemma start_le_mask: "(hash::64 word) AND msk \<le> msk"
  by (rule word_and_le1)

lemma index_table_ok_mask:
  assumes "index_table_ok keys"
  shows "unat (DK_MASK keys) < length (dk_indices keys)"
proof -
  from assms obtain k where k: "k \<le> 64" "dk_size keys = 2 ^ k" "length (dk_indices keys) = 2 ^ k"
    by (rule index_table_ok_size)
  then show ?thesis
    using unat_mask_lt [of k] by (simp add: DK_MASK_pow2)
qed

lemma dk_lookup_result:
  assumes "dk_lookup env mp key hash = Some r" and "index_table_ok (ma_keys mp)"
  shows "r = DKIX_EMPTY \<or> r = DKIX_ERROR \<or> (0 \<le> r \<and> r \<in> set (dk_indices (ma_keys mp)))"
  using assms lookdict_loop_result [OF _ start_le_mask index_table_ok_mask]
  by (simp add: dk_lookup_def Let_def)

lemma lookdict_index_result:
  assumes "lookdict_index k hash index = Some r" and "index_table_ok k"
  shows "r = DKIX_EMPTY \<or> (0 \<le> r \<and> nat r < length (dk_indices k) \<and> dk_indices k ! nat r = index)"
  using assms lookdict_index_loop_result [OF _ start_le_mask index_table_ok_mask]
  by (simp add: lookdict_index_def Let_def)

lemma lookdict_ident_result:
  assumes "lookdict_ident keys key hash = Some r" and "index_table_ok keys"
  shows "r = DKIX_EMPTY \<or> (0 \<le> r \<and> r \<in> set (dk_indices keys) \<and> me_key (dk_entries keys ! nat r) = key)"
  using assms lookdict_ident_loop_result [OF _ start_le_mask index_table_ok_mask]
  by (simp add: lookdict_ident_def Let_def)

lemma find_empty_slot_result:
  assumes "find_empty_slot keys hash = Some r" and "index_table_ok keys"
  shows "r < length (dk_indices keys) \<and> dk_indices keys ! r = DKIX_EMPTY"
  using assms find_empty_slot_loop_result [OF _ start_le_mask index_table_ok_mask]
  by (simp add: find_empty_slot_def Let_def)

text \<open>The casts of \<^verbatim>\<open>dk_set_index\<close> keep an entry index that is below the table size.\<close>

lemma pow2_le_numeral:
  assumes "(2::int) ^ k \<le> 2 ^ m - 1"
  shows "k < m"
proof (rule ccontr)
  assume "\<not> k < m"
  then have "m \<le> k" by simp
  then have "(2::int) ^ m \<le> 2 ^ k" by (rule power_increasing) simp
  with assms show False by simp
qed

lemma sint_of_int_small:
  assumes "0 \<le> ix" and "ix < 2 ^ k" and "k < LENGTH('a::len)"
  shows "sint (word_of_int ix :: 'a word) = ix"
proof -
  from assms(3) have "k \<le> LENGTH('a) - 1" by simp
  then have "(2::int) ^ k \<le> 2 ^ (LENGTH('a) - 1)"
    by (intro power_increasing) simp_all
  with assms(2) have "ix < 2 ^ (LENGTH('a) - 1)" by (rule less_le_trans)
  with assms(1) show ?thesis
    by (simp add: sint_sbintrunc' signed_take_bit_int_eq_self)
qed

lemma dk_set_index_in_range:
  assumes size: "dk_size keys = 2 ^ k" and k: "k < 64" and ix: "0 \<le> ix" "ix < dk_size keys"
  shows "dk_set_index keys i ix = keys\<lparr>dk_indices := (dk_indices keys)[i := ix]\<rparr>"
proof -
  from ix size have lt: "ix < 2 ^ k" by simp
  show ?thesis
  proof (cases "dk_size keys \<le> 0xff")
    case True
    then have "(2::int) ^ k \<le> 2 ^ 8 - 1" using size by simp
    then have "k < 8" by (rule pow2_le_numeral)
    then have "sint (word_of_int ix :: 8 word) = ix"
      using ix(1) lt by (intro sint_of_int_small [where k = k]) simp_all
    then show ?thesis using True
      by (simp add: dk_set_index_def Let_def)
  next
    case f1: False
    show ?thesis
    proof (cases "dk_size keys \<le> 0xffff")
      case True
      then have "(2::int) ^ k \<le> 2 ^ 16 - 1" using size by simp
      then have "k < 16" by (rule pow2_le_numeral)
      then have "sint (word_of_int ix :: 16 word) = ix"
        using ix(1) lt by (intro sint_of_int_small [where k = k]) simp_all
      then show ?thesis using True f1
        by (simp add: dk_set_index_def Let_def)
    next
      case f2: False
      show ?thesis
      proof (cases "dk_size keys > 0xffffffff")
        case True
        have "sint (word_of_int ix :: 64 word) = ix"
          using ix(1) lt k by (intro sint_of_int_small [where k = k]) simp_all
        then show ?thesis using True f1 f2
          by (simp add: dk_set_index_def Let_def)
      next
        case False
        then have "(2::int) ^ k \<le> 2 ^ 32 - 1" using size by simp
        then have "k < 32" by (rule pow2_le_numeral)
        then have "sint (word_of_int ix :: 32 word) = ix"
          using ix(1) lt by (intro sint_of_int_small [where k = k]) simp_all
        then show ?thesis using False f1 f2
          by (simp add: dk_set_index_def Let_def)
      qed
    qed
  qed
qed

lemma odict_ok_facts:
  assumes "odict_ok mp"
  shows "index_table_ok (ma_keys mp)"
    and "0 \<le> ma_offset mp" and "ma_offset mp \<le> dk_nentries (ma_keys mp)"
    and "0 \<le> dk_usable (ma_keys mp)"
    and "dk_nentries (ma_keys mp) + dk_usable (ma_keys mp) = int (length (dk_entries (ma_keys mp)))"
    and "int (length (dk_entries (ma_keys mp))) < dk_size (ma_keys mp)"
    and "\<And>ix. ix \<in> set (dk_indices (ma_keys mp)) \<Longrightarrow> 0 \<le> ix \<Longrightarrow>
           ma_offset mp \<le> ix \<and> ix < dk_nentries (ma_keys mp)
           \<and> me_key (dk_entries (ma_keys mp) ! nat ix) \<noteq> NULL
           \<and> me_value (dk_entries (ma_keys mp) ! nat ix) \<noteq> NULL"
    and "\<And>e. e \<in> set (drop (nat (dk_nentries (ma_keys mp))) (dk_entries (ma_keys mp))) \<Longrightarrow>
           me_value e = NULL"
    and "ma_used mp = int (length (live_entries mp))"
  using assms unfolding odict_ok_def by blast+

lemma index_table_ok_pow2:
  assumes "index_table_ok keys"
  obtains k where "k < 64" and "dk_size keys = 2 ^ k"
proof -
  from assms obtain k where "k \<in> set [3..<63]" "dk_size keys = 2 ^ k"
    unfolding index_table_ok_def by blast
  then show ?thesis by (intro that [of k]) auto
qed

lemma dk_set_index_ok:
  assumes "index_table_ok keys" and "0 \<le> ix" and "ix < dk_size keys"
  shows "dk_set_index keys i ix = keys\<lparr>dk_indices := (dk_indices keys)[i := ix]\<rparr>"
proof -
  from assms(1) obtain k where "k < 64" "dk_size keys = 2 ^ k"
    by (rule index_table_ok_pow2)
  then show ?thesis using assms(2,3) by (intro dk_set_index_in_range [where k = k])
qed

subsection \<open>A move to the end without resize\<close>

text \<open>
  Claim C3. Let the map satisfy its invariant, let the key be present (the lookup
  finds it at entry \<open>ix\<close>, and \<^verbatim>\<open>lookdict_index\<close> finds its index cell at \<open>hashpos\<close>), not
  in the last populated slot, and let a usable slot be left. Then
  \<^verbatim>\<open>move_to_end(key, last=True)\<close> succeeds and, with \<open>n = dk_nentries\<close>: the entry is
  copied into slot \<open>n\<close>; the vacated slot \<open>ix\<close> is zeroed (key, value and hash
  cleared); no other slot changes; the index cell \<open>hashpos\<close>, which referred to
  \<open>ix\<close>, refers to \<open>n\<close>, no other cell changes; \<open>n\<close> grows by 1; and the begin offset
  \<open>b\<close> advances by 1 exactly when \<open>ix\<close> was equal to \<open>b\<close>.
\<close>

theorem move_to_end_last_relocates:
  assumes ok: "odict_ok (od_dict od)"
      and nonempty: "\<not> odict_EMPTY od"
      and hash: "PyObject_Hash env key \<noteq> -1"
      and found: "dk_lookup env (od_dict od) key (PyObject_Hash env key) = Some ix" "0 \<le> ix"
      and cell: "lookdict_index (ma_keys (od_dict od)) (PyObject_Hash env key) ix = Some hashpos"
                "0 \<le> hashpos"
      and moved: "ix \<noteq> dk_nentries (ma_keys (od_dict od)) - 1"
      and room: "dk_usable (ma_keys (od_dict od)) \<noteq> 0"
  shows "\<exists>od'. OrderedDict_move_to_end_impl env od key True = Some (Ok, od')
      \<and> dk_entries (ma_keys (od_dict od')) ! nat (dk_nentries (ma_keys (od_dict od)))
          = dk_entries (ma_keys (od_dict od)) ! nat ix
      \<and> dk_entries (ma_keys (od_dict od')) ! nat ix = zero_entry
      \<and> dk_entries (ma_keys (od_dict od')) =
          (dk_entries (ma_keys (od_dict od)))
            [nat (dk_nentries (ma_keys (od_dict od))) := dk_entries (ma_keys (od_dict od)) ! nat ix,
             nat ix := zero_entry]
      \<and> dk_indices (ma_keys (od_dict od)) ! nat hashpos = ix
      \<and> dk_indices (ma_keys (od_dict od')) =
          (dk_indices (ma_keys (od_dict od)))[nat hashpos := dk_nentries (ma_keys (od_dict od))]
      \<and> dk_nentries (ma_keys (od_dict od')) = dk_nentries (ma_keys (od_dict od)) + 1
      \<and> ma_offset (od_dict od') =
          (if ix = ma_offset (od_dict od) then ma_offset (od_dict od) + 1 else ma_offset (od_dict od))"
proof -
  define mp where "mp = od_dict od"
  define keys where "keys = ma_keys mp"
  define n where "n = dk_nentries keys"
  note inv = odict_ok_facts [OF ok, folded mp_def keys_def]
  from dk_lookup_result [OF found(1) odict_ok_facts(1) [OF ok]] found(2)
  have "ix \<in> set (dk_indices keys)"
    by (auto simp: DKIX_EMPTY_def DKIX_ERROR_def keys_def mp_def)
  with inv(7) found(2) have ix: "ma_offset mp \<le> ix" "ix < n"
    by (auto simp: n_def)
  from inv(4,5) room have n_len: "nat n < length (dk_entries keys)" and n0: "0 \<le> n"
    using inv(2,3) by (auto simp: n_def keys_def mp_def)
  with inv(6) have n_size: "n < dk_size keys" by simp
  from ix n_len found(2) have ix_len: "nat ix < length (dk_entries keys)" and neq: "nat ix \<noteq> nat n"
    by auto
  from lookdict_index_result [OF cell(1) odict_ok_facts(1) [OF ok]] cell(2)
  have pos: "nat hashpos < length (dk_indices keys)" "dk_indices keys ! nat hashpos = ix"
    by (auto simp: DKIX_EMPTY_def keys_def mp_def)
  have set_index: "dk_set_index keys (nat hashpos) n = keys\<lparr>dk_indices := (dk_indices keys)[nat hashpos := n]\<rparr>"
    using inv(1) n0 n_size by (rule dk_set_index_ok)
  have last: "move_to_end_last env mp (me_key (dk_entries keys ! nat ix)) (PyObject_Hash env key) ix (ma_offset mp)
      = Some (Ok, relocate_to_end mp hashpos ix (ma_offset mp))"
    using room cell n_len ix_len n0
    by (simp add: move_to_end_last_def keys_def [symmetric] mp_def [symmetric] n_def [symmetric] Let_def)
  have zero: "e\<lparr>me_key := NULL, me_value := NULL, me_hash := 0\<rparr> = zero_entry"
    for e :: PyDictKeyEntry
    by (simp add: zero_entry_def)
  define od' where "od' = od\<lparr>od_dict := relocate_to_end mp hashpos ix (ma_offset mp), od_state := od_state od + 1\<rparr>"
  have run: "OrderedDict_move_to_end_impl env od key True = Some (Ok, od')"
    using nonempty hash found moved ix_len last
    by (simp add: OrderedDict_move_to_end_impl_def Let_def DKIX_EMPTY_def DKIX_ERROR_def
        keys_def [symmetric] mp_def [symmetric] od'_def)
  have entries: "dk_entries (ma_keys (od_dict od')) = (dk_entries keys)[nat n := dk_entries keys ! nat ix, nat ix := zero_entry]"
    using neq n_len
    by (simp add: od'_def relocate_to_end_def Let_def keys_def [symmetric] n_def [symmetric] set_index zero)
  have indices: "dk_indices (ma_keys (od_dict od')) = (dk_indices keys)[nat hashpos := n]"
    by (simp add: od'_def relocate_to_end_def Let_def keys_def [symmetric] n_def [symmetric] set_index)
  have count: "dk_nentries (ma_keys (od_dict od')) = n + 1"
    by (simp add: od'_def relocate_to_end_def Let_def keys_def [symmetric] n_def [symmetric] set_index)
  have offset: "ma_offset (od_dict od') = (if ix = ma_offset mp then ma_offset mp + 1 else ma_offset mp)"
    by (simp add: od'_def relocate_to_end_def Let_def)
  have at_n: "dk_entries (ma_keys (od_dict od')) ! nat n = dk_entries keys ! nat ix"
    using neq n_len by (simp add: entries)
  have at_ix: "dk_entries (ma_keys (od_dict od')) ! nat ix = zero_entry"
    using ix_len by (simp add: entries)
  show ?thesis
    using run entries indices count offset at_n at_ix pos(2)
    unfolding n_def keys_def mp_def by blast
qed

lemma od0_ok: "odict_ok (od_dict od0)"
  by code_simp

lemma od0_index_10:
  "lookdict_index (ma_keys (od_dict od0)) (PyObject_Hash env0 10) 0 = Some 2"
  by code_simp

theorem move_to_end_last_relocates_witness:
  "odict_ok (od_dict od0) \<and> \<not> odict_EMPTY od0 \<and> PyObject_Hash env0 10 \<noteq> -1
   \<and> dk_lookup env0 (od_dict od0) 10 (PyObject_Hash env0 10) = Some 0
   \<and> lookdict_index (ma_keys (od_dict od0)) (PyObject_Hash env0 10) 0 = Some 2
   \<and> dk_usable (ma_keys (od_dict od0)) \<noteq> 0
   \<and> (0::int) \<noteq> dk_nentries (ma_keys (od_dict od0)) - 1
   \<and> OrderedDict_move_to_end_impl env0 od0 10 True \<noteq> None
   \<and> dk_nentries (ma_keys (od_dict (snd (the (OrderedDict_move_to_end_impl env0 od0 10 True))))) = 4
   \<and> ma_offset (od_dict (snd (the (OrderedDict_move_to_end_impl env0 od0 10 True)))) = 1
   \<and> dk_indices (ma_keys (od_dict (snd (the (OrderedDict_move_to_end_impl env0 od0 10 True)))))
        = [-1, -1, 3, 1, 2, -1, -1, -1]"
proof -
  have nonempty: "\<not> odict_EMPTY od0"
    by (simp add: odict_EMPTY_def od0_def)
  have hash: "PyObject_Hash env0 10 \<noteq> -1"
    by (simp add: env0_def)
  have found: "(0::int) \<le> 0" and cell: "(0::int) \<le> 2"
    by simp_all
  have moved: "(0::int) \<noteq> dk_nentries (ma_keys (od_dict od0)) - 1"
    by (simp add: od0_def)
  have room: "dk_usable (ma_keys (od_dict od0)) \<noteq> 0"
    by (simp add: od0_def)
  have fields: "dk_nentries (ma_keys (od_dict od0)) = 3" "ma_offset (od_dict od0) = 0"
    "dk_indices (ma_keys (od_dict od0)) = [-1, -1, 0, 1, 2, -1, -1, -1]"
    by (simp_all add: od0_def)
  from move_to_end_last_relocates
    [OF od0_ok nonempty hash od0_lookup_10 found od0_index_10 cell moved room]
  obtain od' where run: "OrderedDict_move_to_end_impl env0 od0 10 True = Some (Ok, od')"
    and indices: "dk_indices (ma_keys (od_dict od')) =
          (dk_indices (ma_keys (od_dict od0)))[nat 2 := dk_nentries (ma_keys (od_dict od0))]"
    and count: "dk_nentries (ma_keys (od_dict od')) = dk_nentries (ma_keys (od_dict od0)) + 1"
    and offset: "ma_offset (od_dict od') =
          (if 0 = ma_offset (od_dict od0) then ma_offset (od_dict od0) + 1
           else ma_offset (od_dict od0))"
    by blast
  have "dk_nentries (ma_keys (od_dict od')) = 4"
    using count by (simp add: fields)
  moreover have "ma_offset (od_dict od') = 1"
    using offset by (simp add: fields)
  moreover have "dk_indices (ma_keys (od_dict od')) = [-1, -1, 3, 1, 2, -1, -1, -1]"
    using indices by (simp add: fields)
  ultimately show ?thesis
    using run od0_ok nonempty hash od0_lookup_10 od0_index_10 room moved by simp
qed

subsection \<open>The content of a map under relocation and resize\<close>

lemma set_live_entries:
  "set (live_entries mp) =
     {dk_entries (ma_keys mp) ! j | j.
        nat (ma_offset mp) \<le> j \<and> j < nat (dk_nentries (ma_keys mp))
        \<and> j < length (dk_entries (ma_keys mp))
        \<and> me_value (dk_entries (ma_keys mp) ! j) \<noteq> NULL}"
proof -
  have "set (drop b (take n es)) = {es ! j | j. b \<le> j \<and> j < n \<and> j < length es}"
    for b n and es :: "PyDictKeyEntry list"
  proof (intro set_eqI iffI)
    fix x assume "x \<in> set (drop b (take n es))"
    then obtain i where "i < length (drop b (take n es))" "x = drop b (take n es) ! i"
      by (auto simp: in_set_conv_nth)
    then have len: "b + i < length (take n es)" and x: "x = take n es ! (b + i)"
      by (simp_all add: less_diff_conv add.commute)
    then have "x = es ! (b + i)" "b + i < n" "b + i < length es"
      by simp_all
    then show "x \<in> {es ! j | j. b \<le> j \<and> j < n \<and> j < length es}"
      by (intro CollectI exI [of _ "b + i"]) simp
  next
    fix x assume "x \<in> {es ! j | j. b \<le> j \<and> j < n \<and> j < length es}"
    then obtain j where j: "x = es ! j" "b \<le> j" "j < n" "j < length es"
      by blast
    then have "j - b < length (drop b (take n es))" "drop b (take n es) ! (j - b) = x"
      by (simp_all add: less_diff_conv2)
    then show "x \<in> set (drop b (take n es))"
      by (metis nth_mem)
  qed
  then show ?thesis
    by (auto simp: live_entries_def)
qed

lemma od_items_set: "set (od_items mp) = (\<lambda>e. (me_key e, me_value e)) ` set (live_entries mp)"
  by (simp add: od_items_def)

lemma zero_entry_value [simp]: "me_value zero_entry = NULL" "me_key zero_entry = NULL"
  by (simp_all add: zero_entry_def)

lemma cleared_entry [simp]:
  "(e::PyDictKeyEntry)\<lparr>me_key := NULL, me_value := NULL, me_hash := 0\<rparr> = zero_entry"
  by (simp add: zero_entry_def)

lemma relocate_to_end_fields:
  "ma_used (relocate_to_end mp hashpos ix offset) = ma_used mp"
  "dk_size (ma_keys (relocate_to_end mp hashpos ix offset)) = dk_size (ma_keys mp)"
  "dk_addr (ma_keys (relocate_to_end mp hashpos ix offset)) = dk_addr (ma_keys mp)"
  "dk_nentries (ma_keys (relocate_to_end mp hashpos ix offset)) = dk_nentries (ma_keys mp) + 1"
  "dk_usable (ma_keys (relocate_to_end mp hashpos ix offset)) = dk_usable (ma_keys mp) - 1"
  "ma_offset (relocate_to_end mp hashpos ix offset) =
     (if ix = offset then ma_offset mp + 1 else ma_offset mp)"
  "dk_entries (ma_keys (relocate_to_end mp hashpos ix offset)) =
     (dk_entries (ma_keys mp))
       [nat (dk_nentries (ma_keys mp)) := dk_entries (ma_keys mp) ! nat ix,
        nat ix := ((dk_entries (ma_keys mp))
           [nat (dk_nentries (ma_keys mp)) := dk_entries (ma_keys mp) ! nat ix] ! nat ix)
             \<lparr>me_key := NULL, me_value := NULL, me_hash := 0\<rparr>]"
  "dk_indices (ma_keys (relocate_to_end mp hashpos ix offset)) =
     dk_indices (dk_set_index (ma_keys mp) (nat hashpos) (dk_nentries (ma_keys mp)))"
  by (simp_all add: relocate_to_end_def Let_def)

lemma relocate_to_front_fields:
  "ma_used (relocate_to_front mp hashpos ix offset) = ma_used mp"
  "dk_size (ma_keys (relocate_to_front mp hashpos ix offset)) = dk_size (ma_keys mp)"
  "dk_addr (ma_keys (relocate_to_front mp hashpos ix offset)) = dk_addr (ma_keys mp)"
  "dk_nentries (ma_keys (relocate_to_front mp hashpos ix offset)) = dk_nentries (ma_keys mp) + 1"
  "dk_usable (ma_keys (relocate_to_front mp hashpos ix offset)) = dk_usable (ma_keys mp) - 1"
  "ma_offset (relocate_to_front mp hashpos ix offset) = offset"
  "dk_entries (ma_keys (relocate_to_front mp hashpos ix offset)) =
     (dk_entries (ma_keys mp))
       [nat offset := dk_entries (ma_keys mp) ! nat ix,
        nat ix := ((dk_entries (ma_keys mp))
           [nat offset := dk_entries (ma_keys mp) ! nat ix] ! nat ix)
             \<lparr>me_key := NULL, me_value := NULL, me_hash := 0\<rparr>]"
  "dk_indices (ma_keys (relocate_to_front mp hashpos ix offset)) =
     dk_indices (dk_set_index (ma_keys mp) (nat hashpos) offset)"
  by (simp_all add: relocate_to_front_def Let_def)

lemma relocate_to_end_live:
  assumes "0 \<le> ma_offset mp" and "ma_offset mp \<le> ix" and "ix < dk_nentries (ma_keys mp)"
      and "nat (dk_nentries (ma_keys mp)) < length (dk_entries (ma_keys mp))"
  shows "set (live_entries (relocate_to_end mp hashpos ix (ma_offset mp))) = set (live_entries mp)"
proof -
  define es where "es = dk_entries (ma_keys mp)"
  define b where "b = nat (ma_offset mp)"
  define n where "n = nat (dk_nentries (ma_keys mp))"
  define i where "i = nat ix"
  from assms have bounds: "b \<le> i" "i < n" "n < length es"
    by (simp_all add: b_def i_def n_def es_def)
  have neq: "nat ix \<noteq> nat (dk_nentries (ma_keys mp))"
    using bounds(2) unfolding i_def n_def by linarith
  have b': "nat (ma_offset (relocate_to_end mp hashpos ix (ma_offset mp))) = (if i = b then b + 1 else b)"
    using assms(1,2) by (auto simp: relocate_to_end_fields b_def i_def nat_add_distrib)
  have n': "nat (dk_nentries (ma_keys (relocate_to_end mp hashpos ix (ma_offset mp)))) = n + 1"
    using assms by (simp add: relocate_to_end_fields n_def nat_add_distrib)
  have es': "dk_entries (ma_keys (relocate_to_end mp hashpos ix (ma_offset mp))) = es[n := es ! i, i := zero_entry]"
    by (simp add: relocate_to_end_fields es_def n_def i_def)
  have nth: "es[n := es ! i, i := zero_entry] ! j =
      (if j = i then zero_entry else if j = n then es ! i else es ! j)" if "j < length es" for j
    using that bounds by (simp add: nth_list_update)
  show ?thesis
    unfolding set_live_entries b' n' es'
    unfolding es_def [symmetric] b_def [symmetric] n_def [symmetric]
  proof (intro set_eqI iffI)
    fix x
    assume "x \<in> {es[n := es ! i, i := zero_entry] ! j | j.
        (if i = b then b + 1 else b) \<le> j \<and> j < n + 1 \<and> j < length (es[n := es ! i, i := zero_entry])
        \<and> me_value (es[n := es ! i, i := zero_entry] ! j) \<noteq> NULL}"
    then obtain j where j: "x = es[n := es ! i, i := zero_entry] ! j"
      "(if i = b then b + 1 else b) \<le> j" "j < n + 1" "j < length es"
      "me_value (es[n := es ! i, i := zero_entry] ! j) \<noteq> NULL"
      by auto
    from j(5) nth [OF j(4)] have "j \<noteq> i" by auto
    show "x \<in> {es ! j | j. b \<le> j \<and> j < n \<and> j < length es \<and> me_value (es ! j) \<noteq> NULL}"
    proof (cases "j = n")
      case True
      with j nth [OF j(4)] \<open>j \<noteq> i\<close> bounds show ?thesis
        by (intro CollectI exI [of _ i]) auto
    next
      case False
      with j nth [OF j(4)] \<open>j \<noteq> i\<close> bounds show ?thesis
        by (intro CollectI exI [of _ j]) (auto split: if_splits)
    qed
  next
    fix x
    assume "x \<in> {es ! j | j. b \<le> j \<and> j < n \<and> j < length es \<and> me_value (es ! j) \<noteq> NULL}"
    then obtain j where j: "x = es ! j" "b \<le> j" "j < n" "j < length es" "me_value (es ! j) \<noteq> NULL"
      by auto
    show "x \<in> {es[n := es ! i, i := zero_entry] ! j | j.
        (if i = b then b + 1 else b) \<le> j \<and> j < n + 1 \<and> j < length (es[n := es ! i, i := zero_entry])
        \<and> me_value (es[n := es ! i, i := zero_entry] ! j) \<noteq> NULL}"
    proof (cases "j = i")
      case True
      with j bounds nth [of n] show ?thesis
        by (intro CollectI exI [of _ n]) auto
    next
      case False
      with j bounds nth [of j] show ?thesis
        by (intro CollectI exI [of _ j]) auto
    qed
  qed
qed


lemma relocate_to_front_live:
  assumes "1 \<le> ma_offset mp" and "ma_offset mp \<le> ix" and "ix < dk_nentries (ma_keys mp)"
      and "nat (dk_nentries (ma_keys mp)) \<le> length (dk_entries (ma_keys mp))"
      and tail: "\<forall>e \<in> set (drop (nat (dk_nentries (ma_keys mp))) (dk_entries (ma_keys mp))).
                   me_value e = NULL"
  shows "set (live_entries (relocate_to_front mp hashpos ix (ma_offset mp - 1))) = set (live_entries mp)"
proof -
  define es where "es = dk_entries (ma_keys mp)"
  define b where "b = nat (ma_offset mp)"
  define n where "n = nat (dk_nentries (ma_keys mp))"
  define i where "i = nat ix"
  from assms have bounds: "1 \<le> b" "b \<le> i" "i < n" "n \<le> length es"
    by (simp_all add: b_def i_def n_def es_def)
  have empty_tail: "me_value (es ! j) = NULL" if "n \<le> j" "j < length es" for j
  proof -
    from that have "es ! j = drop n es ! (j - n)" "j - n < length (drop n es)"
      by simp_all
    then have "es ! j \<in> set (drop n es)"
      by (metis nth_mem)
    with tail show ?thesis
      by (simp add: es_def n_def)
  qed
  have b': "nat (ma_offset (relocate_to_front mp hashpos ix (ma_offset mp - 1))) = b - 1"
    using assms(1) by (simp add: relocate_to_front_fields b_def nat_diff_distrib)
  have n': "nat (dk_nentries (ma_keys (relocate_to_front mp hashpos ix (ma_offset mp - 1)))) = n + 1"
    using assms by (simp add: relocate_to_front_fields n_def nat_add_distrib)
  have off: "nat (ma_offset mp - 1) = b - 1"
    using assms(1) by (simp add: b_def nat_diff_distrib)
  have es': "dk_entries (ma_keys (relocate_to_front mp hashpos ix (ma_offset mp - 1)))
      = es[b - 1 := es ! i, i := zero_entry]"
    by (simp add: relocate_to_front_fields es_def i_def off)
  have nth: "es[b - 1 := es ! i, i := zero_entry] ! j =
      (if j = i then zero_entry else if j = b - 1 then es ! i else es ! j)" if "j < length es" for j
    using that bounds by (simp add: nth_list_update)
  show ?thesis
    unfolding set_live_entries b' n' es'
    unfolding es_def [symmetric] b_def [symmetric] n_def [symmetric]
  proof (intro set_eqI iffI)
    fix x
    assume "x \<in> {es[b - 1 := es ! i, i := zero_entry] ! j | j.
        b - 1 \<le> j \<and> j < n + 1 \<and> j < length (es[b - 1 := es ! i, i := zero_entry])
        \<and> me_value (es[b - 1 := es ! i, i := zero_entry] ! j) \<noteq> NULL}"
    then obtain j where j: "x = es[b - 1 := es ! i, i := zero_entry] ! j"
      "b - 1 \<le> j" "j < n + 1" "j < length es"
      "me_value (es[b - 1 := es ! i, i := zero_entry] ! j) \<noteq> NULL"
      by auto
    from j(5) nth [OF j(4)] have "j \<noteq> i" by auto
    show "x \<in> {es ! j | j. b \<le> j \<and> j < n \<and> j < length es \<and> me_value (es ! j) \<noteq> NULL}"
    proof (cases "j = b - 1")
      case True
      with j nth [OF j(4)] \<open>j \<noteq> i\<close> bounds show ?thesis
        by (intro CollectI exI [of _ i]) auto
    next
      case False
      with j(5) nth [OF j(4)] \<open>j \<noteq> i\<close> empty_tail [of j] j(4) have "j < n"
        by (cases "n \<le> j") auto
      with False j nth [OF j(4)] \<open>j \<noteq> i\<close> bounds show ?thesis
        by (intro CollectI exI [of _ j]) (auto split: if_splits)
    qed
  next
    fix x
    assume "x \<in> {es ! j | j. b \<le> j \<and> j < n \<and> j < length es \<and> me_value (es ! j) \<noteq> NULL}"
    then obtain j where j: "x = es ! j" "b \<le> j" "j < n" "j < length es" "me_value (es ! j) \<noteq> NULL"
      by auto
    show "x \<in> {es[b - 1 := es ! i, i := zero_entry] ! j | j.
        b - 1 \<le> j \<and> j < n + 1 \<and> j < length (es[b - 1 := es ! i, i := zero_entry])
        \<and> me_value (es[b - 1 := es ! i, i := zero_entry] ! j) \<noteq> NULL}"
    proof (cases "j = i")
      case True
      with j bounds nth [of "b - 1"] show ?thesis
        by (intro CollectI exI [of _ "b - 1"]) auto
    next
      case False
      with j bounds nth [of j] show ?thesis
        by (intro CollectI exI [of _ j]) auto
    qed
  qed
qed

lemma filter_live_idem:
  "filter (\<lambda>e. me_value e \<noteq> NULL) (live_entries mp) = live_entries mp"
  by (simp add: live_entries_def)

lemma dictresize_result:
  assumes "dictresize env mp minused offset = Some (r, mp')" and "0 \<le> r" and "0 \<le> offset"
  shows "ma_used mp' = ma_used mp" and "ma_offset mp' = offset"
    and "dk_nentries (ma_keys mp') = offset + int (length (live_entries mp))"
    and "\<exists>pad. dk_entries (ma_keys mp') =
           replicate (nat offset) zero_entry @ live_entries mp @ replicate pad zero_entry"
    and "live_entries mp' = live_entries mp"
proof -
  from assms(1,2) obtain a keys' where
    built: "build_indices \<lparr>dk_addr = a, dk_size = resize_capacity minused,
              dk_usable = USABLE_FRACTION env (resize_capacity minused)
                 - (offset + int (length (live_entries mp))),
              dk_nentries = offset + int (length (live_entries mp)),
              dk_indices = replicate (nat (resize_capacity minused)) DKIX_EMPTY,
              dk_entries = replicate (nat offset) zero_entry @ live_entries mp @
                 replicate (nat (USABLE_FRACTION env (resize_capacity minused)
                    - (offset + int (length (live_entries mp))))) zero_entry\<rparr>
            (nat offset) (length (live_entries mp)) = Some keys'"
    and mp': "mp' = mp\<lparr>ma_keys := keys', ma_offset := offset\<rparr>"
    by (auto simp: dictresize_def Let_def split: option.splits)
  note fields = build_indices_fields [OF built]
  show "ma_used mp' = ma_used mp" and "ma_offset mp' = offset"
    by (simp_all add: mp')
  show n: "dk_nentries (ma_keys mp') = offset + int (length (live_entries mp))"
    using fields by (simp add: mp')
  have es: "dk_entries (ma_keys mp') =
           replicate (nat offset) zero_entry @ live_entries mp @
             replicate (nat (USABLE_FRACTION env (resize_capacity minused)
                    - (offset + int (length (live_entries mp))))) zero_entry"
    using fields by (simp add: mp')
  then show "\<exists>pad. dk_entries (ma_keys mp') =
           replicate (nat offset) zero_entry @ live_entries mp @ replicate pad zero_entry"
    by blast
  have "nat (offset + int (length (live_entries mp))) = nat offset + length (live_entries mp)"
    using assms(3) by (simp add: nat_add_distrib)
  moreover have "ma_offset mp' = offset"
    by (simp add: mp')
  ultimately have "drop (nat (ma_offset mp')) (take (nat (dk_nentries (ma_keys mp'))) (dk_entries (ma_keys mp')))
      = live_entries mp"
    by (simp add: es n)
  then have "live_entries mp' = filter (\<lambda>e. me_value e \<noteq> NULL) (live_entries mp)"
    by (simp add: live_entries_def [of mp'])
  then show "live_entries mp' = live_entries mp"
    by (simp only: filter_live_idem)
qed

subsection \<open>What a successful \<^verbatim>\<open>move_to_end\<close> keeps\<close>

lemma lookdict_ident_loop_hit:
  assumes "lookdict_ident_loop keys key msk perturb i = Some r" and "0 \<le> r"
  shows "me_key (dk_entries keys ! nat r) = key"
  using assms
proof (induction keys key msk perturb i r rule: lookdict_ident_loop.raw_induct [rotated, consumes 1])
  case (1 loop keys key msk perturb i r)
  from "1.hyps" "1.prems" show ?case
    using "1.IH"
    by (auto simp: Let_def DKIX_EMPTY_def split: if_splits)
qed

lemma resize_and_find_InrE:
  assumes "resize_and_find env mp key hash minused offset = Some (Inr (mp1, ix1))"
  obtains r where "dictresize env mp minused offset = Some (r, mp1)" and "0 \<le> r"
    and "lookdict_ident (ma_keys mp1) key hash = Some ix1" and "0 \<le> ix1"
    and "me_key (dk_entries (ma_keys mp1) ! nat ix1) = key"
proof -
  from assms obtain r where r: "dictresize env mp minused offset = Some (r, mp1)" "0 \<le> r"
    and found: "lookdict_ident (ma_keys mp1) key hash = Some ix1" "0 \<le> ix1"
    by (auto simp: resize_and_find_def split: option.splits if_splits prod.splits)
  from found have "me_key (dk_entries (ma_keys mp1) ! nat ix1) = key"
    by (auto simp: lookdict_ident_def Let_def dest: lookdict_ident_loop_hit)
  with r found show ?thesis by (rule that)
qed

lemma move_to_end_last_OkE:
  assumes "move_to_end_last env mp key hash ix offset = Some (Ok, mp')"
  obtains mp1 ix1 hashpos where
      "if dk_usable (ma_keys mp) = 0
       then resize_and_find env mp key hash (GROWTH_RATE mp + offset) offset = Some (Inr (mp1, ix1))
       else mp1 = mp \<and> ix1 = ix"
    and "lookdict_index (ma_keys mp1) hash ix1 = Some hashpos" and "0 \<le> hashpos"
    and "0 \<le> dk_nentries (ma_keys mp1)"
    and "nat (dk_nentries (ma_keys mp1)) < length (dk_entries (ma_keys mp1))"
    and "nat ix1 < length (dk_entries (ma_keys mp1))"
    and "mp' = relocate_to_end mp1 hashpos ix1 offset"
proof (cases "dk_usable (ma_keys mp) = 0")
  case True
  with assms obtain mp1 ix1 where
    found: "resize_and_find env mp key hash (GROWTH_RATE mp + offset) offset = Some (Inr (mp1, ix1))"
    by (auto simp: move_to_end_last_def split: option.splits sum.splits)
  with assms True obtain hashpos where "lookdict_index (ma_keys mp1) hash ix1 = Some hashpos"
    and "0 \<le> hashpos" "0 \<le> dk_nentries (ma_keys mp1)"
    and "nat (dk_nentries (ma_keys mp1)) < length (dk_entries (ma_keys mp1))"
    and "nat ix1 < length (dk_entries (ma_keys mp1))"
    and "mp' = relocate_to_end mp1 hashpos ix1 offset"
    by (auto simp: move_to_end_last_def Let_def split: option.splits if_splits)
  with True found show ?thesis
    by (intro that [of mp1 ix1 hashpos]) simp_all
next
  case False
  with assms obtain hashpos where "lookdict_index (ma_keys mp) hash ix = Some hashpos"
    and "0 \<le> hashpos" "0 \<le> dk_nentries (ma_keys mp)"
    and "nat (dk_nentries (ma_keys mp)) < length (dk_entries (ma_keys mp))"
    and "nat ix < length (dk_entries (ma_keys mp))"
    and "mp' = relocate_to_end mp hashpos ix offset"
    by (auto simp: move_to_end_last_def Let_def split: option.splits if_splits)
  with False show ?thesis
    by (intro that [of mp ix hashpos]) simp_all
qed

lemma move_to_end_first_OkE:
  assumes "move_to_end_first env mp key hash ix offset = Some (Ok, mp')"
  obtains mp1 ix1 offset1 hashpos where
      "if offset = 0
       then offset1 = ma_used mp div 2 + 2
          \<and> resize_and_find env mp key hash (GROWTH_RATE mp + offset1) offset1 = Some (Inr (mp1, ix1))
       else mp1 = mp \<and> ix1 = ix \<and> offset1 = offset"
    and "lookdict_index (ma_keys mp1) hash ix1 = Some hashpos" and "0 \<le> hashpos"
    and "0 \<le> offset1 - 1"
    and "nat (offset1 - 1) < length (dk_entries (ma_keys mp1))"
    and "nat ix1 < length (dk_entries (ma_keys mp1))"
    and "mp' = relocate_to_front mp1 hashpos ix1 (offset1 - 1)"
proof (cases "offset = 0")
  case True
  with assms obtain mp1 ix1 where
    found: "resize_and_find env mp key hash (GROWTH_RATE mp + (ma_used mp div 2 + 2))
              (ma_used mp div 2 + 2) = Some (Inr (mp1, ix1))"
    by (auto simp: move_to_end_first_def Let_def split: option.splits sum.splits)
  with assms True obtain hashpos where "lookdict_index (ma_keys mp1) hash ix1 = Some hashpos"
    and "0 \<le> hashpos" "0 \<le> (ma_used mp div 2 + 2) - 1"
    and "nat ((ma_used mp div 2 + 2) - 1) < length (dk_entries (ma_keys mp1))"
    and "nat ix1 < length (dk_entries (ma_keys mp1))"
    and "mp' = relocate_to_front mp1 hashpos ix1 ((ma_used mp div 2 + 2) - 1)"
    by (auto simp: move_to_end_first_def Let_def split: option.splits if_splits)
  with True found show ?thesis
    by (intro that [of "ma_used mp div 2 + 2" mp1 ix1 hashpos]) simp_all
next
  case False
  with assms obtain hashpos where "lookdict_index (ma_keys mp) hash ix = Some hashpos"
    and "0 \<le> hashpos" "0 \<le> offset - 1"
    and "nat (offset - 1) < length (dk_entries (ma_keys mp))"
    and "nat ix < length (dk_entries (ma_keys mp))"
    and "mp' = relocate_to_front mp hashpos ix (offset - 1)"
    by (auto simp: move_to_end_first_def Let_def split: option.splits if_splits)
  with False show ?thesis
    by (intro that [of offset mp ix hashpos]) simp_all
qed

lemma move_to_end_OkE:
  assumes run: "OrderedDict_move_to_end_impl env od key l = Some (Ok, od')"
      and found: "dk_lookup env (od_dict od) key (PyObject_Hash env key) = Some ix"
  obtains (noop) "is_noop od ix l" and "od' = od"
        and "0 \<le> ix" and "nat ix < length (dk_entries (ma_keys (od_dict od)))"
    | (moved) mp' where "\<not> is_noop od ix l"
        and "0 \<le> ix" and "nat ix < length (dk_entries (ma_keys (od_dict od)))"
        and "(if l then move_to_end_last env (od_dict od)
                     (me_key (dk_entries (ma_keys (od_dict od)) ! nat ix))
                     (PyObject_Hash env key) ix (ma_offset (od_dict od))
              else move_to_end_first env (od_dict od)
                     (me_key (dk_entries (ma_keys (od_dict od)) ! nat ix))
                     (PyObject_Hash env key) ix (ma_offset (od_dict od))) = Some (Ok, mp')"
        and "od' = od\<lparr>od_dict := mp', od_state := od_state od + 1\<rparr>"
proof -
  from run found have valid: "0 \<le> ix" "nat ix < length (dk_entries (ma_keys (od_dict od)))"
    by (auto simp: OrderedDict_move_to_end_impl_def Let_def DKIX_EMPTY_def DKIX_ERROR_def
        split: if_splits)
  show ?thesis
  proof (cases "is_noop od ix l")
    case True
    with run found have "od' = od"
      by (auto simp: OrderedDict_move_to_end_impl_def Let_def is_noop_def split: if_splits)
    with True valid show ?thesis by (auto intro: noop)
  next
    case False
    with run found obtain mp' where
      "(if l then move_to_end_last env (od_dict od)
                     (me_key (dk_entries (ma_keys (od_dict od)) ! nat ix))
                     (PyObject_Hash env key) ix (ma_offset (od_dict od))
              else move_to_end_first env (od_dict od)
                     (me_key (dk_entries (ma_keys (od_dict od)) ! nat ix))
                     (PyObject_Hash env key) ix (ma_offset (od_dict od))) = Some (Ok, mp')"
      and "od' = od\<lparr>od_dict := mp', od_state := od_state od + 1\<rparr>"
      by (auto simp: OrderedDict_move_to_end_impl_def Let_def is_noop_def
          split: if_splits option.splits outcome.splits prod.splits)
    with False valid show ?thesis by (auto intro: moved)
  qed
qed

lemma live_segment:
  assumes es: "es = replicate a zero_entry @ live @ replicate p zero_entry"
      and "j < length es" and "me_key (es ! j) \<noteq> NULL"
  shows "a \<le> j \<and> j < a + length live"
proof (rule ccontr)
  assume "\<not> (a \<le> j \<and> j < a + length live)"
  then consider "j < a" | "a + length live \<le> j" by linarith
  then have "es ! j = zero_entry"
  proof cases
    case 1
    then show ?thesis by (simp add: es nth_append)
  next
    case 2
    with assms(2) have "j - a - length live < p"
      by (simp add: es)
    with 2 show ?thesis
      by (simp add: es nth_append)
  qed
  with assms(3) show False by simp
qed


lemma resized_state:
  assumes found: "resize_and_find env mp key hash minused offset = Some (Inr (mp1, ix1))"
      and off: "0 \<le> offset" and key: "key \<noteq> NULL"
      and len: "nat ix1 < length (dk_entries (ma_keys mp1))"
  shows "ma_offset mp1 = offset" and "ma_used mp1 = ma_used mp"
    and "live_entries mp1 = live_entries mp"
    and "offset \<le> ix1" and "ix1 < dk_nentries (ma_keys mp1)"
    and "nat (dk_nentries (ma_keys mp1)) \<le> length (dk_entries (ma_keys mp1))"
    and "\<forall>e \<in> set (drop (nat (dk_nentries (ma_keys mp1))) (dk_entries (ma_keys mp1))).
           me_value e = NULL"
    and "me_key (dk_entries (ma_keys mp1) ! nat ix1) = key"
proof -
  from found obtain r where r: "dictresize env mp minused offset = Some (r, mp1)" "0 \<le> r"
    and ix1: "0 \<le> ix1" "me_key (dk_entries (ma_keys mp1) ! nat ix1) = key"
    by (rule resize_and_find_InrE)
  note res = dictresize_result [OF r off]
  from res(4) obtain pad where es: "dk_entries (ma_keys mp1) =
      replicate (nat offset) zero_entry @ live_entries mp @ replicate pad zero_entry"
    by blast
  show "ma_offset mp1 = offset" "ma_used mp1 = ma_used mp" "live_entries mp1 = live_entries mp"
    using res by simp_all
  show "me_key (dk_entries (ma_keys mp1) ! nat ix1) = key"
    by (rule ix1(2))
  from live_segment [OF es len] ix1(2) key
  have seg: "nat offset \<le> nat ix1" "nat ix1 < nat offset + length (live_entries mp)"
    by simp_all
  with off ix1(1) show "offset \<le> ix1" "ix1 < dk_nentries (ma_keys mp1)"
    by (simp_all add: res(3))
  have n1: "nat (dk_nentries (ma_keys mp1)) = nat offset + length (live_entries mp)"
    using off by (simp add: res(3) nat_add_distrib)
  show "nat (dk_nentries (ma_keys mp1)) \<le> length (dk_entries (ma_keys mp1))"
    by (simp add: n1 es)
  show "\<forall>e \<in> set (drop (nat (dk_nentries (ma_keys mp1))) (dk_entries (ma_keys mp1))).
           me_value e = NULL"
    by (simp add: n1 es)
qed

text \<open>
  Claim C9. On a map that satisfies its invariant, a successful \<^verbatim>\<open>move_to_end\<close> of a key
  that the lookup finds (at entry \<open>ix\<close>) leaves the set of key-value pairs of the
  logical content (the live entries of the slots \<open>[b, n)\<close>) and the live-entry count
  \<open>ma_used\<close> unchanged, with or without a resize. When the call is not a no-op and
  does not resize (a move to the end with a usable slot left, a move to the front
  with \<open>b \<noteq> 0\<close>), \<open>dk_nentries\<close> grows by exactly 1 and \<open>dk_usable\<close> drops by exactly
  1; the key table stays the same object with the same size and capacity; the
  entries change in the vacated slot and the target slot only; the hash index
  changes in the cell of the key only, which is repointed to the target slot; the
  begin offset and the state counter are the remaining changes.
\<close>

theorem move_to_end_preserves_content:
  assumes ok: "odict_ok (od_dict od)"
      and run: "OrderedDict_move_to_end_impl env od key l = Some (Ok, od')"
      and found: "dk_lookup env (od_dict od) key (PyObject_Hash env key) = Some ix"
  shows "set (od_items (od_dict od')) = set (od_items (od_dict od))
       \<and> ma_used (od_dict od') = ma_used (od_dict od)
       \<and> ((if l then ix \<noteq> dk_nentries (ma_keys (od_dict od)) - 1
                    \<and> dk_usable (ma_keys (od_dict od)) \<noteq> 0
            else ix \<noteq> ma_offset (od_dict od) \<and> ma_offset (od_dict od) \<noteq> 0) \<longrightarrow>
           dk_nentries (ma_keys (od_dict od')) = dk_nentries (ma_keys (od_dict od)) + 1
         \<and> dk_usable (ma_keys (od_dict od')) = dk_usable (ma_keys (od_dict od)) - 1
         \<and> dk_size (ma_keys (od_dict od')) = dk_size (ma_keys (od_dict od))
         \<and> dk_addr (ma_keys (od_dict od')) = dk_addr (ma_keys (od_dict od))
         \<and> length (dk_entries (ma_keys (od_dict od'))) = length (dk_entries (ma_keys (od_dict od)))
         \<and> (\<forall>j. j \<noteq> nat ix \<longrightarrow>
                j \<noteq> nat (if l then dk_nentries (ma_keys (od_dict od)) else ma_offset (od_dict od) - 1) \<longrightarrow>
                dk_entries (ma_keys (od_dict od')) ! j = dk_entries (ma_keys (od_dict od)) ! j)
         \<and> (\<exists>hashpos < length (dk_indices (ma_keys (od_dict od))).
                dk_indices (ma_keys (od_dict od)) ! hashpos = ix
              \<and> dk_indices (ma_keys (od_dict od')) = (dk_indices (ma_keys (od_dict od)))
                  [hashpos := (if l then dk_nentries (ma_keys (od_dict od))
                               else ma_offset (od_dict od) - 1)])
         \<and> od_state od' = od_state od + 1)"
proof -
  define mp where "mp = od_dict od"
  define keys where "keys = ma_keys mp"
  note inv = odict_ok_facts [OF ok, folded mp_def keys_def]
  from run found show ?thesis
  proof (cases rule: move_to_end_OkE)
    case noop
    then show ?thesis
      by (auto simp: is_noop_def)
  next
    case (moved mp')
    from dk_lookup_result [OF found inv(1) [unfolded keys_def mp_def]] moved(2)
    have "ix \<in> set (dk_indices keys)"
      by (auto simp: DKIX_EMPTY_def DKIX_ERROR_def keys_def mp_def)
    with inv(7) moved(2) have ix: "ma_offset mp \<le> ix" "ix < dk_nentries keys"
      and key': "me_key (dk_entries keys ! nat ix) \<noteq> NULL"
      by auto
    have n_len: "nat (dk_nentries keys) \<le> length (dk_entries keys)" and n_size: "dk_nentries keys < dk_size keys"
      and n0: "0 \<le> dk_nentries keys"
      using inv(2-6) by auto
    have od': "od_dict od' = mp'" "od_state od' = od_state od + 1"
      by (simp_all add: moved(5))
    show ?thesis
    proof (cases l)
      case True
      with moved(4) have "move_to_end_last env mp (me_key (dk_entries keys ! nat ix))
          (PyObject_Hash env key) ix (ma_offset mp) = Some (Ok, mp')"
        by (simp add: mp_def keys_def)
      then obtain mp1 ix1 hashpos where
        prep: "if dk_usable keys = 0
           then resize_and_find env mp (me_key (dk_entries keys ! nat ix)) (PyObject_Hash env key)
                  (GROWTH_RATE mp + ma_offset mp) (ma_offset mp) = Some (Inr (mp1, ix1))
           else mp1 = mp \<and> ix1 = ix"
        and cell: "lookdict_index (ma_keys mp1) (PyObject_Hash env key) ix1 = Some hashpos" "0 \<le> hashpos"
        and guards: "0 \<le> dk_nentries (ma_keys mp1)"
          "nat (dk_nentries (ma_keys mp1)) < length (dk_entries (ma_keys mp1))"
          "nat ix1 < length (dk_entries (ma_keys mp1))"
        and mp': "mp' = relocate_to_end mp1 hashpos ix1 (ma_offset mp)"
        unfolding keys_def by (rule move_to_end_last_OkE)
      have st: "ma_offset mp1 = ma_offset mp \<and> ma_used mp1 = ma_used mp
          \<and> set (live_entries mp1) = set (live_entries mp)
          \<and> ma_offset mp \<le> ix1 \<and> ix1 < dk_nentries (ma_keys mp1)"
      proof (cases "dk_usable keys = 0")
        case True
        with prep have "resize_and_find env mp (me_key (dk_entries keys ! nat ix)) (PyObject_Hash env key)
                  (GROWTH_RATE mp + ma_offset mp) (ma_offset mp) = Some (Inr (mp1, ix1))"
          by simp
        from resized_state [OF this inv(2) key' guards(3)] show ?thesis by simp
      next
        case False
        with prep ix show ?thesis by (simp add: keys_def)
      qed
      then have "set (live_entries mp') = set (live_entries mp)"
        using relocate_to_end_live [of mp1 ix1 hashpos] inv(2) guards(2)
        by (simp add: mp')
      then have content: "set (od_items mp') = set (od_items mp)"
        by (simp only: od_items_set)
      have used: "ma_used mp' = ma_used mp"
        using st by (simp add: mp' relocate_to_end_fields)
      have frame: ?thesis if room: "dk_usable keys \<noteq> 0"
      proof -
        from prep room have same: "mp1 = mp" "ix1 = ix" by simp_all
        from guards n_len have n_lt: "nat (dk_nentries keys) < length (dk_entries keys)"
          by (simp add: same keys_def)
        from lookdict_index_result [OF cell(1) [unfolded same] inv(1) [unfolded keys_def]] cell(2)
        have pos: "nat hashpos < length (dk_indices keys)" "dk_indices keys ! nat hashpos = ix"
          by (auto simp: DKIX_EMPTY_def keys_def)
        have set_index: "dk_set_index keys i (dk_nentries keys)
            = keys\<lparr>dk_indices := (dk_indices keys)[i := dk_nentries keys]\<rparr>" for i
          using inv(1) n0 n_size by (rule dk_set_index_ok)
        have neq: "nat ix \<noteq> nat (dk_nentries keys)"
          using ix(2) moved(2) by linarith
        have es': "dk_entries (ma_keys mp') = (dk_entries keys)
            [nat (dk_nentries keys) := dk_entries keys ! nat ix, nat ix := zero_entry]"
          by (simp add: mp' same relocate_to_end_fields keys_def [symmetric])
        have "dk_indices (ma_keys mp') = (dk_indices keys)[nat hashpos := dk_nentries keys]"
          by (simp add: mp' same relocate_to_end_fields keys_def [symmetric] set_index)
        with pos have idx: "\<exists>hashpos < length (dk_indices keys). dk_indices keys ! hashpos = ix
              \<and> dk_indices (ma_keys mp') = (dk_indices keys)[hashpos := dk_nentries keys]"
          by blast
        have others: "\<forall>j. j \<noteq> nat ix \<longrightarrow> j \<noteq> nat (dk_nentries keys) \<longrightarrow>
            dk_entries (ma_keys mp') ! j = dk_entries keys ! j"
          by (simp add: es')
        have counts: "dk_nentries (ma_keys mp') = dk_nentries keys + 1"
          "dk_usable (ma_keys mp') = dk_usable keys - 1"
          "dk_size (ma_keys mp') = dk_size keys" "dk_addr (ma_keys mp') = dk_addr keys"
          "length (dk_entries (ma_keys mp')) = length (dk_entries keys)"
          by (simp_all add: es' mp' same relocate_to_end_fields keys_def [symmetric])
        show ?thesis
          using True content used idx others counts od'
          by (simp add: mp_def [symmetric] keys_def [symmetric])
      qed
      show ?thesis
      proof (cases "dk_usable keys \<noteq> 0")
        case True
        then show ?thesis by (rule frame)
      next
        case False
        with \<open>l\<close> content used od' show ?thesis
          by (simp add: mp_def [symmetric] keys_def [symmetric])
      qed
    next
      case False
      with moved(4) have "move_to_end_first env mp (me_key (dk_entries keys ! nat ix))
          (PyObject_Hash env key) ix (ma_offset mp) = Some (Ok, mp')"
        by (simp add: mp_def keys_def)
      then obtain mp1 ix1 offset1 hashpos where
        prep: "if ma_offset mp = 0
           then offset1 = ma_used mp div 2 + 2
              \<and> resize_and_find env mp (me_key (dk_entries keys ! nat ix)) (PyObject_Hash env key)
                  (GROWTH_RATE mp + offset1) offset1 = Some (Inr (mp1, ix1))
           else mp1 = mp \<and> ix1 = ix \<and> offset1 = ma_offset mp"
        and cell: "lookdict_index (ma_keys mp1) (PyObject_Hash env key) ix1 = Some hashpos" "0 \<le> hashpos"
        and guards: "0 \<le> offset1 - 1"
          "nat (offset1 - 1) < length (dk_entries (ma_keys mp1))"
          "nat ix1 < length (dk_entries (ma_keys mp1))"
        and mp': "mp' = relocate_to_front mp1 hashpos ix1 (offset1 - 1)"
        unfolding keys_def by (rule move_to_end_first_OkE)
      have st: "ma_offset mp1 = offset1 \<and> ma_used mp1 = ma_used mp
          \<and> set (live_entries mp1) = set (live_entries mp)
          \<and> offset1 \<le> ix1 \<and> ix1 < dk_nentries (ma_keys mp1)
          \<and> nat (dk_nentries (ma_keys mp1)) \<le> length (dk_entries (ma_keys mp1))
          \<and> (\<forall>e \<in> set (drop (nat (dk_nentries (ma_keys mp1))) (dk_entries (ma_keys mp1))).
                me_value e = NULL)"
      proof (cases "ma_offset mp = 0")
        case True
        with prep have off1: "offset1 = ma_used mp div 2 + 2"
          and "resize_and_find env mp (me_key (dk_entries keys ! nat ix)) (PyObject_Hash env key)
                  (GROWTH_RATE mp + offset1) offset1 = Some (Inr (mp1, ix1))"
          by auto
        moreover from guards(1) have "0 \<le> offset1" by simp
        ultimately show ?thesis
          using resized_state [of env mp "me_key (dk_entries keys ! nat ix)" "PyObject_Hash env key"
              "GROWTH_RATE mp + offset1" offset1 mp1 ix1] key' guards(3)
          by simp
      next
        case False
        with prep ix n_len inv(8) show ?thesis by (simp add: keys_def)
      qed
      then have "set (live_entries mp') = set (live_entries mp)"
        using relocate_to_front_live [of mp1 ix1 hashpos] guards(1)
        by (simp add: mp')
      then have content: "set (od_items mp') = set (od_items mp)"
        by (simp only: od_items_set)
      have used: "ma_used mp' = ma_used mp"
        using st by (simp add: mp' relocate_to_front_fields)
      have frame: ?thesis if room: "ma_offset mp \<noteq> 0"
      proof -
        from prep room have same: "mp1 = mp" "ix1 = ix" "offset1 = ma_offset mp" by simp_all
        from guards have b1: "0 \<le> ma_offset mp - 1" by (simp add: same)
        have b_size: "ma_offset mp - 1 < dk_size keys"
          using inv(3) n_size by simp
        from lookdict_index_result [OF cell(1) [unfolded same] inv(1) [unfolded keys_def]] cell(2)
        have pos: "nat hashpos < length (dk_indices keys)" "dk_indices keys ! nat hashpos = ix"
          by (auto simp: DKIX_EMPTY_def keys_def)
        have set_index: "dk_set_index keys i (ma_offset mp - 1)
            = keys\<lparr>dk_indices := (dk_indices keys)[i := ma_offset mp - 1]\<rparr>" for i
          using inv(1) b1 b_size by (rule dk_set_index_ok)
        have neq: "nat ix \<noteq> nat (ma_offset mp - 1)"
          using ix(1) b1 by linarith
        have es': "dk_entries (ma_keys mp') = (dk_entries keys)
            [nat (ma_offset mp - 1) := dk_entries keys ! nat ix, nat ix := zero_entry]"
          by (simp add: mp' same relocate_to_front_fields keys_def [symmetric])
        have "dk_indices (ma_keys mp') = (dk_indices keys)[nat hashpos := ma_offset mp - 1]"
          by (simp add: mp' same relocate_to_front_fields keys_def [symmetric] set_index)
        with pos have idx: "\<exists>hashpos < length (dk_indices keys). dk_indices keys ! hashpos = ix
              \<and> dk_indices (ma_keys mp') = (dk_indices keys)[hashpos := ma_offset mp - 1]"
          by blast
        have others: "\<forall>j. j \<noteq> nat ix \<longrightarrow> j \<noteq> nat (ma_offset mp - 1) \<longrightarrow>
            dk_entries (ma_keys mp') ! j = dk_entries keys ! j"
          by (simp add: es')
        have counts: "dk_nentries (ma_keys mp') = dk_nentries keys + 1"
          "dk_usable (ma_keys mp') = dk_usable keys - 1"
          "dk_size (ma_keys mp') = dk_size keys" "dk_addr (ma_keys mp') = dk_addr keys"
          "length (dk_entries (ma_keys mp')) = length (dk_entries keys)"
          by (simp_all add: es' mp' same relocate_to_front_fields keys_def [symmetric])
        show ?thesis
          using False content used idx others counts od'
          by (simp add: mp_def [symmetric] keys_def [symmetric])
      qed
      show ?thesis
      proof (cases "ma_offset mp \<noteq> 0")
        case True
        then show ?thesis by (rule frame)
      next
        case no_room: False
        with \<open>\<not> l\<close> content used od' show ?thesis
          by (simp add: mp_def [symmetric] keys_def [symmetric])
      qed
    qed
  qed
qed

lemma od0_front_ok: "odict_ok (od_dict od0_front)"
  by code_simp

lemma od0_front_move_12:
  "OrderedDict_move_to_end_impl env0 od0_front 12 False = Some (Ok, od0_front_moved)"
  by code_simp

lemma od0_front_lookup_12:
  "dk_lookup env0 (od_dict od0_front) 12 (PyObject_Hash env0 12) = Some 5"
  by code_simp

theorem move_to_end_preserves_content_witness:
  "odict_ok (od_dict od0_front)
   \<and> OrderedDict_move_to_end_impl env0 od0_front 12 False = Some (Ok, od0_front_moved)
   \<and> dk_lookup env0 (od_dict od0_front) 12 (PyObject_Hash env0 12) = Some 5
   \<and> (5::int) \<noteq> ma_offset (od_dict od0_front) \<and> ma_offset (od_dict od0_front) \<noteq> 0
   \<and> set (od_items (od_dict od0_front_moved)) = set (od_items (od_dict od0_front))
   \<and> ma_used (od_dict od0_front_moved) = ma_used (od_dict od0_front)
   \<and> dk_nentries (ma_keys (od_dict od0_front_moved)) = dk_nentries (ma_keys (od_dict od0_front)) + 1
   \<and> dk_usable (ma_keys (od_dict od0_front_moved)) = dk_usable (ma_keys (od_dict od0_front)) - 1"
proof -
  have cond: "(5::int) \<noteq> ma_offset (od_dict od0_front)" "ma_offset (od_dict od0_front) \<noteq> 0"
    by (simp_all add: od0_front_def)
  from move_to_end_preserves_content [OF od0_front_ok od0_front_move_12 od0_front_lookup_12]
  show ?thesis
    using cond od0_front_ok od0_front_move_12 od0_front_lookup_12 by simp
qed

subsection \<open>A move to the front with the begin offset at 0\<close>

lemma pow2_table_mask:
  assumes "dk_size keys = 2 ^ k" and "int (length (dk_indices keys)) = dk_size keys"
  shows "unat (DK_MASK keys) < length (dk_indices keys)"
proof -
  from assms have "int (length (dk_indices keys)) = int (2 ^ k)" by simp
  then have "length (dk_indices keys) = 2 ^ k" by (simp only: of_nat_eq_iff)
  then show ?thesis
    using unat_mask_lt [of k] by (simp add: DK_MASK_pow2 [OF assms(1)])
qed

lemma dk_set_index_small:
  assumes size: "dk_size keys = 2 ^ k" and ix: "0 \<le> ix" "ix < dk_size keys" "ix < 2 ^ 63"
  shows "dk_set_index keys i ix = keys\<lparr>dk_indices := (dk_indices keys)[i := ix]\<rparr>"
proof -
  from ix size have lt: "ix < 2 ^ k" by simp
  show ?thesis
  proof (cases "dk_size keys \<le> 0xff")
    case True
    then have "(2::int) ^ k \<le> 2 ^ 8 - 1" using size by simp
    then have "k < 8" by (rule pow2_le_numeral)
    then have "sint (word_of_int ix :: 8 word) = ix"
      using ix(1) lt by (intro sint_of_int_small [where k = k]) simp_all
    then show ?thesis using True
      by (simp add: dk_set_index_def Let_def)
  next
    case f1: False
    show ?thesis
    proof (cases "dk_size keys \<le> 0xffff")
      case True
      then have "(2::int) ^ k \<le> 2 ^ 16 - 1" using size by simp
      then have "k < 16" by (rule pow2_le_numeral)
      then have "sint (word_of_int ix :: 16 word) = ix"
        using ix(1) lt by (intro sint_of_int_small [where k = k]) simp_all
      then show ?thesis using True f1
        by (simp add: dk_set_index_def Let_def)
    next
      case f2: False
      show ?thesis
      proof (cases "dk_size keys > 0xffffffff")
        case True
        have "sint (word_of_int ix :: 64 word) = ix"
          using ix(1,3) by (intro sint_of_int_small [where k = 63]) simp_all
        then show ?thesis using True f1 f2
          by (simp add: dk_set_index_def Let_def)
      next
        case False
        then have "(2::int) ^ k \<le> 2 ^ 32 - 1" using size by simp
        then have "k < 32" by (rule pow2_le_numeral)
        then have "sint (word_of_int ix :: 32 word) = ix"
          using ix(1) lt by (intro sint_of_int_small [where k = k]) simp_all
        then show ?thesis using False f1 f2
          by (simp add: dk_set_index_def Let_def)
      qed
    qed
  qed
qed

lemma build_indices_cells:
  assumes "build_indices keys ix n = Some keys'"
      and "dk_size keys = 2 ^ k"
      and "int (ix + n) \<le> dk_size keys" and "int (ix + n) \<le> 2 ^ 63"
  shows "\<forall>c \<in> set (dk_indices keys'). c \<in> set (dk_indices keys) \<or> (int ix \<le> c \<and> c < int (ix + n))"
  using assms
proof (induction n arbitrary: keys ix)
  case 0
  then show ?case by simp
next
  case (Suc n)
  from Suc.prems(1) obtain i where
    rest: "build_indices (dk_set_index keys i (int ix)) (Suc ix) n = Some keys'"
    by (auto split: option.splits)
  have ix: "0 \<le> int ix" "int ix < dk_size keys" "int ix < 2 ^ 63"
    using Suc.prems(3,4) by simp_all
  have set: "dk_set_index keys i (int ix) = keys\<lparr>dk_indices := (dk_indices keys)[i := int ix]\<rparr>"
    using Suc.prems(2) ix by (rule dk_set_index_small)
  have "\<forall>c \<in> set (dk_indices keys').
          c \<in> set (dk_indices (dk_set_index keys i (int ix))) \<or> (int (Suc ix) \<le> c \<and> c < int (Suc ix + n))"
    using rest Suc.prems(2-4) by (intro Suc.IH) simp_all
  moreover have "set (dk_indices (dk_set_index keys i (int ix))) \<subseteq> insert (int ix) (set (dk_indices keys))"
    by (simp add: set set_update_subset_insert)
  ultimately show ?case
    by (auto simp del: of_nat_Suc of_nat_add) 
qed

lemma dictresize_table:
  assumes res: "dictresize env mp minused offset = Some (r, mp1)" and r: "0 \<le> r"
      and off: "0 \<le> offset"
      and fits: "offset + int (length (live_entries mp)) \<le> minused"
      and small: "offset + int (length (live_entries mp)) \<le> 2 ^ 63"
  shows "r = 0"
    and "\<exists>j. dk_size (ma_keys mp1) = 2 ^ j"
    and "minused \<le> dk_size (ma_keys mp1)"
    and "int (length (dk_indices (ma_keys mp1))) = dk_size (ma_keys mp1)"
    and "\<forall>c \<in> set (dk_indices (ma_keys mp1)). 0 \<le> c \<longrightarrow>
           offset \<le> c \<and> c < offset + int (length (live_entries mp))"
proof -
  define cap where "cap = resize_capacity minused"
  define keys0 where "keys0 = \<lparr>dk_addr = (the (new_keys_object env cap)), dk_size = cap,
              dk_usable = USABLE_FRACTION env cap - (offset + int (length (live_entries mp))),
              dk_nentries = offset + int (length (live_entries mp)),
              dk_indices = replicate (nat cap) DKIX_EMPTY,
              dk_entries = replicate (nat offset) zero_entry @ live_entries mp @
                 replicate (nat (USABLE_FRACTION env cap
                    - (offset + int (length (live_entries mp))))) zero_entry\<rparr>"
  from res r obtain keys' where
    built: "build_indices keys0 (nat offset) (length (live_entries mp)) = Some keys'"
    and mp1: "mp1 = mp\<lparr>ma_keys := keys', ma_offset := offset\<rparr>" and r0: "r = 0"
    by (auto simp: dictresize_def Let_def keys0_def cap_def split: option.splits)
  show "r = 0" by (rule r0)
  note fields = build_indices_fields [OF built]
  from resize_capacity_spec [of minused] obtain j where
    j: "cap = 2 ^ j" and cap8: "8 \<le> cap" and capm: "minused \<le> cap"
    by (auto simp: cap_def)
  have size: "dk_size (ma_keys mp1) = cap"
    using fields by (simp add: mp1 keys0_def)
  with j show "\<exists>j. dk_size (ma_keys mp1) = 2 ^ j" by blast
  from size capm show "minused \<le> dk_size (ma_keys mp1)" by simp
  show "int (length (dk_indices (ma_keys mp1))) = dk_size (ma_keys mp1)"
    using fields cap8 by (simp add: mp1 keys0_def)
  have sum: "int (nat offset + length (live_entries mp)) = offset + int (length (live_entries mp))"
    using off by simp
  have cells: "\<forall>c \<in> set (dk_indices keys'). c \<in> set (dk_indices keys0)
     \<or> (int (nat offset) \<le> c \<and> c < int (nat offset + length (live_entries mp)))"
  proof (rule build_indices_cells [OF built])
    show "dk_size keys0 = 2 ^ j" by (simp add: keys0_def j)
    show "int (nat offset + length (live_entries mp)) \<le> dk_size keys0"
      using fits capm by (simp only: sum) (simp add: keys0_def)
    show "int (nat offset + length (live_entries mp)) \<le> 2 ^ 63"
      using small by (simp only: sum)
  qed
  have empty: "c < 0" if "c \<in> set (dk_indices keys0)" for c
    using that by (simp add: keys0_def DKIX_EMPTY_def split: if_splits)
  show "\<forall>c \<in> set (dk_indices (ma_keys mp1)). 0 \<le> c \<longrightarrow>
           offset \<le> c \<and> c < offset + int (length (live_entries mp))"
  proof (intro ballI impI)
    fix c assume "c \<in> set (dk_indices (ma_keys mp1))" and c0: "0 \<le> c"
    then have "c \<in> set (dk_indices keys')" by (simp add: mp1)
    with cells have "c \<in> set (dk_indices keys0)
       \<or> (int (nat offset) \<le> c \<and> c < int (nat offset + length (live_entries mp)))"
      by (rule bspec)
    with empty [of c] c0
    have "int (nat offset) \<le> c \<and> c < int (nat offset + length (live_entries mp))"
      by linarith
    then show "offset \<le> c \<and> c < offset + int (length (live_entries mp))"
      using off by (simp only: sum) simp
  qed
qed


lemma length_live_entries:
  "length (live_entries mp) \<le> length (dk_entries (ma_keys mp))"
proof -
  have "length (live_entries mp)
      \<le> length (drop (nat (ma_offset mp)) (take (nat (dk_nentries (ma_keys mp))) (dk_entries (ma_keys mp))))"
    unfolding live_entries_def by (rule length_filter_le)
  also have "\<dots> \<le> length (dk_entries (ma_keys mp))"
    by simp
  finally show ?thesis .
qed

text \<open>
  Claim C5. Let the map satisfy its invariant with begin offset \<open>b = 0\<close>, and let the
  key be present (the lookup finds it at entry \<open>ix\<close>). If \<open>ix\<close> is the front slot
  (\<open>ix = b = 0\<close>), \<^verbatim>\<open>move_to_end(key, last=False)\<close> returns \<open>Ok\<close> and leaves the map as it
  is. Otherwise it resizes with \<open>r = used/2 + 2\<close> as the reserved offset: when the
  resize and the identity lookup after it succeed (map \<open>mp1\<close>, the key at entry
  \<open>ix1\<close>) and \<^verbatim>\<open>lookdict_index\<close> finds the index cell \<open>hashpos\<close>, the call returns
  \<open>Ok\<close>; the resized map has begin offset \<open>r\<close> and its \<open>r\<close> leading slots are empty;
  the result has begin offset \<open>r - 1\<close>; slot \<open>r - 1\<close> holds the entry of the key (a
  live entry of the map before the call), the vacated slot \<open>ix1\<close> is zeroed, no
  other slot changes; the index cell \<open>hashpos\<close>, which referred to \<open>ix1\<close>, refers to
  \<open>r - 1\<close>, no other cell changes.
\<close>

theorem move_to_front_reserves:
  assumes ok: "odict_ok (od_dict od)"
      and hash: "PyObject_Hash env key \<noteq> -1"
      and found: "dk_lookup env (od_dict od) key (PyObject_Hash env key) = Some ix" "0 \<le> ix"
      and b0: "ma_offset (od_dict od) = 0"
  shows "(ix = 0 \<longrightarrow> OrderedDict_move_to_end_impl env od key False = Some (Ok, od))
    \<and> (ix \<noteq> 0 \<longrightarrow>
         resize_and_find env (od_dict od) (me_key (dk_entries (ma_keys (od_dict od)) ! nat ix))
            (PyObject_Hash env key)
            (GROWTH_RATE (od_dict od) + (ma_used (od_dict od) div 2 + 2))
            (ma_used (od_dict od) div 2 + 2) = Some (Inr (mp1, ix1)) \<longrightarrow>
         lookdict_index (ma_keys mp1) (PyObject_Hash env key) ix1 = Some hashpos \<longrightarrow>
         0 \<le> hashpos \<longrightarrow>
         (\<exists>od'. OrderedDict_move_to_end_impl env od key False = Some (Ok, od')
            \<and> dictresize env (od_dict od)
                 (GROWTH_RATE (od_dict od) + (ma_used (od_dict od) div 2 + 2))
                 (ma_used (od_dict od) div 2 + 2) = Some (0, mp1)
            \<and> ma_offset mp1 = ma_used (od_dict od) div 2 + 2
            \<and> take (nat (ma_used (od_dict od) div 2 + 2)) (dk_entries (ma_keys mp1))
                 = replicate (nat (ma_used (od_dict od) div 2 + 2)) zero_entry
            \<and> ma_offset (od_dict od') = ma_offset mp1 - 1
            \<and> dk_entries (ma_keys mp1) ! nat ix1 \<in> set (live_entries (od_dict od))
            \<and> me_key (dk_entries (ma_keys mp1) ! nat ix1)
                 = me_key (dk_entries (ma_keys (od_dict od)) ! nat ix)
            \<and> dk_entries (ma_keys (od_dict od')) ! nat (ma_offset mp1 - 1)
                 = dk_entries (ma_keys mp1) ! nat ix1
            \<and> dk_entries (ma_keys (od_dict od')) ! nat ix1 = zero_entry
            \<and> dk_entries (ma_keys (od_dict od')) =
                 (dk_entries (ma_keys mp1))
                   [nat (ma_offset mp1 - 1) := dk_entries (ma_keys mp1) ! nat ix1,
                    nat ix1 := zero_entry]
            \<and> dk_indices (ma_keys mp1) ! nat hashpos = ix1
            \<and> dk_indices (ma_keys (od_dict od')) =
                 (dk_indices (ma_keys mp1))[nat hashpos := ma_offset mp1 - 1]
            \<and> od_state od' = od_state od + 1))"
proof (intro conjI impI)
  define mp where "mp = od_dict od"
  define keys where "keys = ma_keys mp"
  define h where "h = PyObject_Hash env key"
  define key' where "key' = me_key (dk_entries keys ! nat ix)"
  define r where "r = ma_used mp div 2 + 2"
  note inv = odict_ok_facts [OF ok, folded mp_def keys_def]
  from dk_lookup_result [OF found(1) odict_ok_facts(1) [OF ok]] found(2)
  have "ix \<in> set (dk_indices keys)"
    by (auto simp: DKIX_EMPTY_def DKIX_ERROR_def keys_def mp_def)
  with inv(7) found(2) have ix: "ma_offset mp \<le> ix" "ix < dk_nentries keys"
    and live_ix: "me_value (dk_entries keys ! nat ix) \<noteq> NULL"
    by auto
  from inv(4,5) have n_len: "nat (dk_nentries keys) \<le> length (dk_entries keys)"
    by simp
  with ix found(2) have ix_len: "nat ix < length (dk_entries keys)"
    by simp
  have "dk_entries keys ! nat ix \<in> set (live_entries mp)"
    unfolding set_live_entries keys_def [symmetric]
    using ix found(2) ix_len live_ix inv(2)
    by (intro CollectI exI [of _ "nat ix"]) simp
  then have "0 < length (live_entries mp)"
    by (rule length_pos_if_in_set)
  with inv(9) have used: "0 < ma_used mp"
    by simp
  then have nonempty: "\<not> odict_EMPTY od"
    by (simp add: odict_EMPTY_def mp_def)
  {
    assume "ix = 0"
    with nonempty hash found b0 ix_len
    show "OrderedDict_move_to_end_impl env od key False = Some (Ok, od)"
      by (simp add: OrderedDict_move_to_end_impl_def Let_def DKIX_EMPTY_def DKIX_ERROR_def
          keys_def [symmetric] mp_def [symmetric])
  }
  assume moved: "ix \<noteq> 0"
    and resized: "resize_and_find env (od_dict od) (me_key (dk_entries (ma_keys (od_dict od)) ! nat ix))
            (PyObject_Hash env key)
            (GROWTH_RATE (od_dict od) + (ma_used (od_dict od) div 2 + 2))
            (ma_used (od_dict od) div 2 + 2) = Some (Inr (mp1, ix1))"
    and cell: "lookdict_index (ma_keys mp1) (PyObject_Hash env key) ix1 = Some hashpos"
    and hashpos: "0 \<le> hashpos"
  from resized have resized': "resize_and_find env mp key' h (GROWTH_RATE mp + r) r = Some (Inr (mp1, ix1))"
    by (simp add: mp_def keys_def key'_def h_def r_def)
  from cell have cell': "lookdict_index (ma_keys mp1) h ix1 = Some hashpos"
    by (simp add: h_def)
  define keys1 where "keys1 = ma_keys mp1"
  from resized' obtain r0 where res: "dictresize env mp (GROWTH_RATE mp + r) r = Some (r0, mp1)"
    and r0: "0 \<le> r0"
    and ident: "lookdict_ident keys1 key' h = Some ix1" and ix1: "0 \<le> ix1"
    and key1: "me_key (dk_entries keys1 ! nat ix1) = key'"
    unfolding keys1_def by (rule resize_and_find_InrE)
  have r2: "2 \<le> r" using used by (simp add: r_def)
  then have off: "0 \<le> r" by simp
  from inv(1) obtain k where mem_k: "k \<in> set [3..<63]" and size_k: "dk_size keys = 2 ^ k"
    unfolding index_table_ok_def by blast
  from mem_k have "3 \<le> k \<and> k < 63"
    by (simp only: set_upt atLeastLessThan_iff)
  then have "k \<le> 62" by simp
  then have pow62: "(2::int) ^ k \<le> 2 ^ 62"
    by (intro power_increasing) simp_all
  note k = size_k
  from inv(6) have "int (length (dk_entries keys)) < 2 ^ k"
    by (simp only: size_k)
  with pow62 have len62: "int (length (dk_entries keys)) < 2 ^ 62"
    by (rule less_le_trans [rotated])
  have "int (length (live_entries mp)) \<le> int (length (dk_entries keys))"
    unfolding keys_def by (simp only: of_nat_le_iff length_live_entries)
  with len62 inv(9) have used62: "ma_used mp < 2 ^ 62"
    by simp
  have size0: "0 \<le> drop_bit 1 (dk_size keys)"
    using k by (simp add: drop_bit_eq_div)
  have gr: "ma_used mp \<le> GROWTH_RATE mp"
    unfolding GROWTH_RATE_def keys_def [symmetric] using used size0 by linarith
  have fits: "r + int (length (live_entries mp)) \<le> GROWTH_RATE mp + r"
    using inv(9) gr by linarith
  have small: "r + int (length (live_entries mp)) \<le> 2 ^ 63"
    using inv(9) [symmetric] used used62 by (simp add: r_def)
  note table = dictresize_table [OF res r0 off fits small, folded keys1_def]
  note result = dictresize_result [OF res r0 off, folded keys1_def]
  from table(1) res have res0: "dictresize env mp (GROWTH_RATE mp + r) r = Some (0, mp1)"
    by simp
  from table(2) obtain j where j: "dk_size keys1 = 2 ^ j" by blast
  have msk: "unat (DK_MASK keys1) < length (dk_indices keys1)"
    using j table(4) by (rule pow2_table_mask)
  from result(4) obtain pad where es1: "dk_entries keys1 =
      replicate (nat r) zero_entry @ live_entries mp @ replicate pad zero_entry"
    by blast
  from ident have "lookdict_ident_loop keys1 key' (DK_MASK keys1) h (h AND DK_MASK keys1) = Some ix1"
    by (simp add: lookdict_ident_def Let_def)
  from lookdict_ident_loop_result [OF this start_le_mask msk] ix1
  have "ix1 \<in> set (dk_indices keys1)"
    by (auto simp: DKIX_EMPTY_def)
  with table(5) ix1 have range1: "r \<le> ix1" "ix1 < r + int (length (live_entries mp))"
    by auto
  then have seg: "nat r \<le> nat ix1" "nat ix1 - nat r < length (live_entries mp)"
    using off by simp_all
  then have ix1_len: "nat ix1 < length (dk_entries keys1)"
    by (simp add: es1)
  have r_len: "nat (r - 1) < length (dk_entries keys1)"
    using r2 by (simp add: es1)
  have neq: "nat (r - 1) \<noteq> nat ix1"
    using range1 r2 by simp
  have at1: "dk_entries keys1 ! nat ix1 = live_entries mp ! (nat ix1 - nat r)"
    using seg range1(1) by (simp add: es1 nth_append)
  with seg(2) have mem: "dk_entries keys1 ! nat ix1 \<in> set (live_entries mp)"
    by simp
  have lead: "take (nat r) (dk_entries keys1) = replicate (nat r) zero_entry"
    by (simp add: es1)
  from cell' have "lookdict_index_loop keys1 ix1 (DK_MASK keys1) h (h AND DK_MASK keys1) = Some hashpos"
    by (simp add: lookdict_index_def Let_def keys1_def)
  from lookdict_index_loop_result [OF this start_le_mask msk] hashpos
  have pos: "nat hashpos < length (dk_indices keys1)" "dk_indices keys1 ! nat hashpos = ix1"
    by (auto simp: DKIX_EMPTY_def)
  have "r - 1 < dk_size keys1"
    using table(3) gr used by linarith
  moreover have "r - 1 < 2 ^ 63"
    using used62 used by (simp add: r_def)
  moreover have "0 \<le> r - 1" using r2 by simp
  ultimately have set_index:
    "dk_set_index keys1 (nat hashpos) (r - 1) = keys1\<lparr>dk_indices := (dk_indices keys1)[nat hashpos := r - 1]\<rparr>"
    using j by (intro dk_set_index_small [where k = j])
  have first: "move_to_end_first env mp key' h ix 0 = Some (Ok, relocate_to_front mp1 hashpos ix1 (r - 1))"
    using resized' cell' hashpos r2 r_len ix1_len
    by (simp add: move_to_end_first_def Let_def r_def [symmetric] keys1_def [symmetric])
  define od' where "od' = od\<lparr>od_dict := relocate_to_front mp1 hashpos ix1 (r - 1), od_state := od_state od + 1\<rparr>"
  have run: "OrderedDict_move_to_end_impl env od key False = Some (Ok, od')"
    using nonempty hash found moved ix_len first b0
    by (simp add: OrderedDict_move_to_end_impl_def Let_def DKIX_EMPTY_def DKIX_ERROR_def
        keys_def [symmetric] mp_def [symmetric] od'_def h_def [symmetric] key'_def [symmetric])
  have entries: "dk_entries (ma_keys (od_dict od')) =
      (dk_entries keys1)[nat (r - 1) := dk_entries keys1 ! nat ix1, nat ix1 := zero_entry]"
    by (simp add: od'_def relocate_to_front_fields(7) keys1_def [symmetric])
  have indices: "dk_indices (ma_keys (od_dict od')) = (dk_indices keys1)[nat hashpos := r - 1]"
    by (simp add: od'_def relocate_to_front_fields(8) keys1_def [symmetric] set_index)
  have offset: "ma_offset (od_dict od') = r - 1"
    by (simp add: od'_def relocate_to_front_fields(6))
  have at_b: "dk_entries (ma_keys (od_dict od')) ! nat (r - 1) = dk_entries keys1 ! nat ix1"
    using neq r_len by (simp add: entries)
  have at_ix: "dk_entries (ma_keys (od_dict od')) ! nat ix1 = zero_entry"
    using ix1_len by (simp add: entries)
  have state: "od_state od' = od_state od + 1"
    by (simp add: od'_def)
  have "OrderedDict_move_to_end_impl env od key False = Some (Ok, od')
      \<and> dictresize env mp (GROWTH_RATE mp + r) r = Some (0, mp1)
      \<and> ma_offset mp1 = r
      \<and> take (nat r) (dk_entries keys1) = replicate (nat r) zero_entry
      \<and> ma_offset (od_dict od') = ma_offset mp1 - 1
      \<and> dk_entries keys1 ! nat ix1 \<in> set (live_entries mp)
      \<and> me_key (dk_entries keys1 ! nat ix1) = key'
      \<and> dk_entries (ma_keys (od_dict od')) ! nat (ma_offset mp1 - 1) = dk_entries keys1 ! nat ix1
      \<and> dk_entries (ma_keys (od_dict od')) ! nat ix1 = zero_entry
      \<and> dk_entries (ma_keys (od_dict od')) =
          (dk_entries keys1)[nat (ma_offset mp1 - 1) := dk_entries keys1 ! nat ix1, nat ix1 := zero_entry]
      \<and> dk_indices keys1 ! nat hashpos = ix1
      \<and> dk_indices (ma_keys (od_dict od')) = (dk_indices keys1)[nat hashpos := ma_offset mp1 - 1]
      \<and> od_state od' = od_state od + 1"
    using run res0 result(2) lead offset mem key1 at_b at_ix entries pos(2) indices state
    by (simp only: simp_thms)
  then show "\<exists>od'. OrderedDict_move_to_end_impl env od key False = Some (Ok, od')
            \<and> dictresize env (od_dict od)
                 (GROWTH_RATE (od_dict od) + (ma_used (od_dict od) div 2 + 2))
                 (ma_used (od_dict od) div 2 + 2) = Some (0, mp1)
            \<and> ma_offset mp1 = ma_used (od_dict od) div 2 + 2
            \<and> take (nat (ma_used (od_dict od) div 2 + 2)) (dk_entries (ma_keys mp1))
                 = replicate (nat (ma_used (od_dict od) div 2 + 2)) zero_entry
            \<and> ma_offset (od_dict od') = ma_offset mp1 - 1
            \<and> dk_entries (ma_keys mp1) ! nat ix1 \<in> set (live_entries (od_dict od))
            \<and> me_key (dk_entries (ma_keys mp1) ! nat ix1)
                 = me_key (dk_entries (ma_keys (od_dict od)) ! nat ix)
            \<and> dk_entries (ma_keys (od_dict od')) ! nat (ma_offset mp1 - 1)
                 = dk_entries (ma_keys mp1) ! nat ix1
            \<and> dk_entries (ma_keys (od_dict od')) ! nat ix1 = zero_entry
            \<and> dk_entries (ma_keys (od_dict od')) =
                 (dk_entries (ma_keys mp1))
                   [nat (ma_offset mp1 - 1) := dk_entries (ma_keys mp1) ! nat ix1,
                    nat ix1 := zero_entry]
            \<and> dk_indices (ma_keys mp1) ! nat hashpos = ix1
            \<and> dk_indices (ma_keys (od_dict od')) =
                 (dk_indices (ma_keys mp1))[nat hashpos := ma_offset mp1 - 1]
            \<and> od_state od' = od_state od + 1"
    unfolding keys1_def key'_def keys_def r_def mp_def by (rule exI)
qed

lemma od0_resize_and_find_11:
  "resize_and_find env0 (od_dict od0) (me_key (dk_entries (ma_keys (od_dict od0)) ! nat 1))
     (PyObject_Hash env0 11)
     (GROWTH_RATE (od_dict od0) + (ma_used (od_dict od0) div 2 + 2))
     (ma_used (od_dict od0) div 2 + 2) = Some (Inr (od0_resized, 4))"
  by code_simp

lemma od0_resized_index_11:
  "lookdict_index (ma_keys od0_resized) (PyObject_Hash env0 11) 4 = Some 11"
  by code_simp

theorem move_to_front_reserves_witness:
  "odict_ok (od_dict od0) \<and> PyObject_Hash env0 11 \<noteq> -1
   \<and> dk_lookup env0 (od_dict od0) 11 (PyObject_Hash env0 11) = Some 1
   \<and> ma_offset (od_dict od0) = 0
   \<and> resize_and_find env0 (od_dict od0) (me_key (dk_entries (ma_keys (od_dict od0)) ! nat 1))
        (PyObject_Hash env0 11)
        (GROWTH_RATE (od_dict od0) + (ma_used (od_dict od0) div 2 + 2))
        (ma_used (od_dict od0) div 2 + 2) = Some (Inr (od0_resized, 4))
   \<and> lookdict_index (ma_keys od0_resized) (PyObject_Hash env0 11) 4 = Some 11
   \<and> OrderedDict_move_to_end_impl env0 od0 11 False \<noteq> None
   \<and> ma_offset od0_resized = 3
   \<and> ma_offset (od_dict (snd (the (OrderedDict_move_to_end_impl env0 od0 11 False)))) = 2
   \<and> dk_entries (ma_keys (od_dict (snd (the (OrderedDict_move_to_end_impl env0 od0 11 False))))) ! 2
        = \<lparr>me_hash = 11, me_key = 11, me_value = 101\<rparr>
   \<and> dk_entries (ma_keys (od_dict (snd (the (OrderedDict_move_to_end_impl env0 od0 11 False))))) ! 4
        = zero_entry
   \<and> dk_indices (ma_keys (od_dict (snd (the (OrderedDict_move_to_end_impl env0 od0 11 False)))))
        = [-1, -1, -1, -1, -1, -1, -1, -1, -1, -1, 3, 2, 5, -1, -1, -1]"
proof -
  have hash: "PyObject_Hash env0 11 \<noteq> -1"
    by (simp add: env0_def)
  have found: "(0::int) \<le> 1" and moved: "(1::int) \<noteq> 0" and cell: "(0::int) \<le> 11"
    by simp_all
  have b0: "ma_offset (od_dict od0) = 0"
    by (simp add: od0_def)
  have fields: "ma_offset od0_resized = 3"
    "dk_entries (ma_keys od0_resized) ! 4 = \<lparr>me_hash = 11, me_key = 11, me_value = 101\<rparr>"
    "dk_indices (ma_keys od0_resized) = [-1, -1, -1, -1, -1, -1, -1, -1, -1, -1, 3, 4, 5, -1, -1, -1]"
    by (simp_all add: od0_resized_def)
  note inst = move_to_front_reserves [OF od0_ok hash od0_lookup_11 found b0,
      where ?mp1.0 = od0_resized and ?ix1.0 = 4 and hashpos = 11]
  from inst [THEN conjunct2, rule_format, OF moved od0_resize_and_find_11 od0_resized_index_11 cell]
  obtain od' where run: "OrderedDict_move_to_end_impl env0 od0 11 False = Some (Ok, od')"
    and offset: "ma_offset (od_dict od') = ma_offset od0_resized - 1"
    and at_b: "dk_entries (ma_keys (od_dict od')) ! nat (ma_offset od0_resized - 1)
                 = dk_entries (ma_keys od0_resized) ! nat 4"
    and at_ix: "dk_entries (ma_keys (od_dict od')) ! nat 4 = zero_entry"
    and indices: "dk_indices (ma_keys (od_dict od')) =
                 (dk_indices (ma_keys od0_resized))[nat 11 := ma_offset od0_resized - 1]"
    by blast
  have "ma_offset (od_dict od') = 2"
    using offset by (simp add: fields)
  moreover have "dk_entries (ma_keys (od_dict od')) ! 2 = \<lparr>me_hash = 11, me_key = 11, me_value = 101\<rparr>"
    using at_b by (simp add: fields)
  moreover have "dk_entries (ma_keys (od_dict od')) ! 4 = zero_entry"
    using at_ix by simp
  moreover have "dk_indices (ma_keys (od_dict od'))
      = [-1, -1, -1, -1, -1, -1, -1, -1, -1, -1, 3, 2, 5, -1, -1, -1]"
    using indices by (simp add: fields)
  ultimately show ?thesis
    using run od0_ok hash od0_lookup_11 b0 od0_resize_and_find_11 od0_resized_index_11 fields(1)
    by simp
qed

subsection \<open>A reorder that resizes\<close>

lemma probe_shift:
  "(probe_next msk ^^ Suc n) (p, i) =
     (probe_next msk ^^ n) (drop_bit PERTURB_SHIFT p, msk AND (i * 5 + drop_bit PERTURB_SHIFT p + 1))"
proof -
  have "probe_next msk (p, i) =
      (drop_bit PERTURB_SHIFT p, msk AND (i * 5 + drop_bit PERTURB_SHIFT p + 1))"
    by (simp add: probe_next_def)
  then show ?thesis
    by (simp only: funpow_Suc_right o_apply)
qed

lemma find_empty_slot_loop_first_stop:
  assumes "dk_get_index keys (unat (snd ((probe_next msk ^^ t) (p, i)))) = DKIX_EMPTY"
      and "\<forall>t' < t. dk_get_index keys (unat (snd ((probe_next msk ^^ t') (p, i)))) \<noteq> DKIX_EMPTY"
  shows "find_empty_slot_loop keys msk p i = Some (unat (snd ((probe_next msk ^^ t) (p, i))))"
  using assms
proof (induction t arbitrary: p i)
  case 0
  then show ?case
    by (subst find_empty_slot_loop.simps) simp
next
  case (Suc t)
  from Suc.prems(2) have here: "dk_get_index keys (unat i) \<noteq> DKIX_EMPTY"
    by (metis funpow_0 snd_conv zero_less_Suc)
  define p' where "p' = drop_bit PERTURB_SHIFT p"
  define i' where "i' = msk AND (i * 5 + drop_bit PERTURB_SHIFT p + 1)"
  have shift: "(probe_next msk ^^ Suc n) (p, i) = (probe_next msk ^^ n) (p', i')" for n
    unfolding p'_def i'_def by (rule probe_shift)
  have "dk_get_index keys (unat (snd ((probe_next msk ^^ t) (p', i')))) = DKIX_EMPTY"
    using Suc.prems(1) by (simp only: shift)
  moreover have "\<forall>t' < t. dk_get_index keys (unat (snd ((probe_next msk ^^ t') (p', i')))) \<noteq> DKIX_EMPTY"
  proof (intro allI impI)
    fix t' assume "t' < t"
    then have "Suc t' < Suc t" by simp
    with Suc.prems(2) have "dk_get_index keys (unat (snd ((probe_next msk ^^ Suc t') (p, i)))) \<noteq> DKIX_EMPTY"
      by blast
    then show "dk_get_index keys (unat (snd ((probe_next msk ^^ t') (p', i')))) \<noteq> DKIX_EMPTY"
      unfolding shift .
  qed
  ultimately have "find_empty_slot_loop keys msk p' i' =
      Some (unat (snd ((probe_next msk ^^ t) (p', i'))))"
    by (rule Suc.IH)
  moreover have "find_empty_slot_loop keys msk p i = find_empty_slot_loop keys msk p' i'"
    using here
    by (subst find_empty_slot_loop.simps) (simp add: p'_def i'_def)
  ultimately show ?case
    by (simp only: shift)
qed

lemma lookdict_index_loop_first_stop:
  assumes "dk_get_index k (unat (snd ((probe_next msk ^^ t) (p, i)))) = index"
      and "\<forall>t' < t. dk_get_index k (unat (snd ((probe_next msk ^^ t') (p, i)))) \<noteq> index
             \<and> dk_get_index k (unat (snd ((probe_next msk ^^ t') (p, i)))) \<noteq> DKIX_EMPTY"
  shows "lookdict_index_loop k index msk p i = Some (uint (snd ((probe_next msk ^^ t) (p, i))))"
  using assms
proof (induction t arbitrary: p i)
  case 0
  then show ?case
    by (subst lookdict_index_loop.simps) (simp add: Let_def)
next
  case (Suc t)
  from Suc.prems(2) have here: "dk_get_index k (unat i) \<noteq> index" "dk_get_index k (unat i) \<noteq> DKIX_EMPTY"
    by (metis funpow_0 snd_conv zero_less_Suc)+
  define p' where "p' = drop_bit PERTURB_SHIFT p"
  define i' where "i' = msk AND (i * 5 + drop_bit PERTURB_SHIFT p + 1)"
  have shift: "(probe_next msk ^^ Suc n) (p, i) = (probe_next msk ^^ n) (p', i')" for n
    unfolding p'_def i'_def by (rule probe_shift)
  have "dk_get_index k (unat (snd ((probe_next msk ^^ t) (p', i')))) = index"
    using Suc.prems(1) by (simp only: shift)
  moreover have "\<forall>t' < t. dk_get_index k (unat (snd ((probe_next msk ^^ t') (p', i')))) \<noteq> index
             \<and> dk_get_index k (unat (snd ((probe_next msk ^^ t') (p', i')))) \<noteq> DKIX_EMPTY"
  proof (intro allI impI)
    fix t' assume "t' < t"
    then have "Suc t' < Suc t" by simp
    with Suc.prems(2) have "dk_get_index k (unat (snd ((probe_next msk ^^ Suc t') (p, i)))) \<noteq> index
        \<and> dk_get_index k (unat (snd ((probe_next msk ^^ Suc t') (p, i)))) \<noteq> DKIX_EMPTY"
      by blast
    then show "dk_get_index k (unat (snd ((probe_next msk ^^ t') (p', i')))) \<noteq> index
        \<and> dk_get_index k (unat (snd ((probe_next msk ^^ t') (p', i')))) \<noteq> DKIX_EMPTY"
      unfolding shift .
  qed
  ultimately have "lookdict_index_loop k index msk p' i' =
      Some (uint (snd ((probe_next msk ^^ t) (p', i'))))"
    by (rule Suc.IH)
  moreover have "lookdict_index_loop k index msk p i = lookdict_index_loop k index msk p' i'"
    using here
    by (subst lookdict_index_loop.simps) (simp add: p'_def i'_def Let_def)
  ultimately show ?case
    by (simp only: shift)
qed

lemma probe_pos_lt: "unat (snd (probe (mask k) hash t)) < 2 ^ k"
proof (cases t)
  case 0
  have "uint (hash AND mask k) < 2 ^ k" by (rule and_mask_lt_2p)
  then have "int (unat (hash AND mask k)) < int (2 ^ k)"
    by (simp only: uint_nat [symmetric] of_nat_power of_nat_numeral)
  then have "unat (hash AND mask k) < 2 ^ k"
    by (simp only: of_nat_less_iff)
  then show ?thesis by (simp add: 0 probe_def)
next
  case (Suc n)
  have "unat (snd (probe_next (mask k) ((probe_next (mask k) ^^ n) (hash, hash AND mask k)))) < 2 ^ k"
    by (rule probe_next_snd_lt)
  then show ?thesis by (simp add: Suc probe_def)
qed

lemma find_empty_slot_returns:
  assumes size: "dk_size keys = 2 ^ k" and k: "k \<le> 64" and len: "length (dk_indices keys) = 2 ^ k"
      and empty: "DKIX_EMPTY \<in> set (dk_indices keys)"
  obtains t where "find_empty_slot keys hash = Some (unat (snd (probe (DK_MASK keys) hash t)))"
    and "unat (snd (probe (DK_MASK keys) hash t)) < length (dk_indices keys)"
    and "dk_indices keys ! unat (snd (probe (DK_MASK keys) hash t)) = DKIX_EMPTY"
    and "\<forall>t' < t. dk_indices keys ! unat (snd (probe (DK_MASK keys) hash t')) \<noteq> DKIX_EMPTY"
proof -
  have msk: "DK_MASK keys = mask k"
    using size by (rule DK_MASK_pow2)
  let ?cell = "\<lambda>t. dk_indices keys ! unat (snd (probe (DK_MASK keys) hash t))"
  from empty obtain c where c: "c < 2 ^ k" "dk_indices keys ! c = DKIX_EMPTY"
    by (metis in_set_conv_nth len)
  from probe_visits_every_cell [OF k c(1), of hash "hash AND mask k"]
  obtain t0 where "unat (snd (probe (DK_MASK keys) hash t0)) = c"
    by (auto simp: probe_def msk)
  with c have "?cell t0 = DKIX_EMPTY" by simp
  then have "\<exists>t. ?cell t = DKIX_EMPTY" ..
  then have "\<exists>t. ?cell t = DKIX_EMPTY \<and> (\<forall>t' < t. ?cell t' \<noteq> DKIX_EMPTY)"
    by (rule exists_least_iff [THEN iffD1])
  then obtain t where t: "?cell t = DKIX_EMPTY" and least: "\<forall>t' < t. ?cell t' \<noteq> DKIX_EMPTY"
    by blast
  have "find_empty_slot keys hash = Some (unat (snd (probe (DK_MASK keys) hash t)))"
    using find_empty_slot_loop_first_stop [where keys = keys
        and msk = "DK_MASK keys" and t = t and p = hash and i = "hash AND DK_MASK keys"] t least
    by (simp add: find_empty_slot_def Let_def probe_def dk_get_index_nth)
  moreover have "unat (snd (probe (DK_MASK keys) hash t)) < length (dk_indices keys)"
    using probe_pos_lt [of k hash t] by (simp add: msk len)
  ultimately show ?thesis
    using t least by (rule that)
qed

lemma reached_update:
  assumes r: "reached keys h v" and v: "v \<noteq> DKIX_EMPTY"
      and c: "dk_indices keys ! c = DKIX_EMPTY" and w: "w \<noteq> DKIX_EMPTY"
      and indices: "dk_indices keys' = (dk_indices keys)[c := w]"
      and size: "dk_size keys' = dk_size keys"
  shows "reached keys' h v"
proof -
  have msk: "DK_MASK keys' = DK_MASK keys"
    by (simp add: DK_MASK_def size)
  have cell: "dk_indices keys ! n \<noteq> DKIX_EMPTY \<Longrightarrow> dk_indices keys' ! n = dk_indices keys ! n" for n
    using c by (cases "n = c") (simp_all add: indices)
  from r obtain t where t: "dk_indices keys ! unat (snd (probe (DK_MASK keys) h t)) = v"
    and before: "\<forall>t' < t. dk_indices keys ! unat (snd (probe (DK_MASK keys) h t')) \<noteq> DKIX_EMPTY"
    unfolding reached_def dk_get_index_nth by blast
  from t v have "dk_indices keys' ! unat (snd (probe (DK_MASK keys) h t)) = v"
    by (simp add: cell)
  moreover have "\<forall>t' < t. dk_indices keys' ! unat (snd (probe (DK_MASK keys) h t')) \<noteq> DKIX_EMPTY"
    using before by (simp add: cell)
  ultimately show ?thesis
    unfolding reached_def dk_get_index_nth msk by blast
qed


lemma build_indices_reached:
  assumes "dk_size keys = 2 ^ k" and "k \<le> 64" and "length (dk_indices keys) = 2 ^ k"
      and "n \<le> card {c. c < length (dk_indices keys) \<and> dk_indices keys ! c = DKIX_EMPTY}"
      and "int (ix + n) \<le> dk_size keys" and "int (ix + n) \<le> 2 ^ 63"
  shows "\<exists>keys'. build_indices keys ix n = Some keys'
            \<and> (\<forall>p. ix \<le> p \<and> p < ix + n \<longrightarrow> reached keys' (me_hash (dk_entries keys ! p)) (int p))
            \<and> (\<forall>h v. v \<noteq> DKIX_EMPTY \<longrightarrow> reached keys h v \<longrightarrow> reached keys' h v)"
  using assms
proof (induction n arbitrary: keys ix)
  case 0
  show ?case by auto
next
  case (Suc n)
  define E where "E = {c. c < length (dk_indices keys) \<and> dk_indices keys ! c = DKIX_EMPTY}"
  define h where "h = me_hash (dk_entries keys ! ix)"
  have finE: "finite E" by (simp add: E_def)
  from Suc.prems(4) have "0 < card E" by (simp add: E_def)
  then have "E \<noteq> {}" by auto
  then obtain c where "c < length (dk_indices keys)" "dk_indices keys ! c = DKIX_EMPTY"
    by (auto simp: E_def)
  then have "DKIX_EMPTY \<in> set (dk_indices keys)"
    by (metis nth_mem)
  from find_empty_slot_returns [OF Suc.prems(1-3) this, of h]
  obtain t where fe: "find_empty_slot keys h = Some (unat (snd (probe (DK_MASK keys) h t)))"
    and lt: "unat (snd (probe (DK_MASK keys) h t)) < length (dk_indices keys)"
    and cell: "dk_indices keys ! unat (snd (probe (DK_MASK keys) h t)) = DKIX_EMPTY"
    and least: "\<forall>t' < t. dk_indices keys ! unat (snd (probe (DK_MASK keys) h t')) \<noteq> DKIX_EMPTY"
    by blast
  define i where "i = unat (snd (probe (DK_MASK keys) h t))"
  define keys2 where "keys2 = dk_set_index keys i (int ix)"
  have ix: "0 \<le> int ix" "int ix < dk_size keys" "int ix < 2 ^ 63"
    using Suc.prems(5,6) by simp_all
  have set: "keys2 = keys\<lparr>dk_indices := (dk_indices keys)[i := int ix]\<rparr>"
    unfolding keys2_def using Suc.prems(1) ix by (rule dk_set_index_small)
  have f2: "dk_size keys2 = 2 ^ k" "length (dk_indices keys2) = 2 ^ k"
    "dk_entries keys2 = dk_entries keys" "dk_size keys2 = dk_size keys"
    "dk_indices keys2 = (dk_indices keys)[i := int ix]"
    using Suc.prems(1,3) by (simp_all add: set)
  have ne: "int ix \<noteq> DKIX_EMPTY"
    by (simp add: DKIX_EMPTY_def)
  have "{c. c < length (dk_indices keys2) \<and> dk_indices keys2 ! c = DKIX_EMPTY} = E - {i}"
    using ne lt by (auto simp: E_def f2(5) i_def nth_list_update)
  moreover have "card (E - {i}) = card E - 1"
    using lt cell by (intro card_Diff_singleton) (simp add: E_def i_def)
  ultimately have room: "n \<le> card {c. c < length (dk_indices keys2) \<and> dk_indices keys2 ! c = DKIX_EMPTY}"
    using Suc.prems(4) by (simp add: E_def)
  have bounds: "int (Suc ix + n) \<le> dk_size keys2" "int (Suc ix + n) \<le> 2 ^ 63"
    using Suc.prems(5,6) by (simp_all add: f2(4))
  from Suc.IH [OF f2(1) Suc.prems(2) f2(2) room bounds]
  obtain keys' where built: "build_indices keys2 (Suc ix) n = Some keys'"
    and later: "\<forall>p. Suc ix \<le> p \<and> p < Suc ix + n \<longrightarrow> reached keys' (me_hash (dk_entries keys2 ! p)) (int p)"
    and kept: "\<forall>h v. v \<noteq> DKIX_EMPTY \<longrightarrow> reached keys2 h v \<longrightarrow> reached keys' h v"
    by blast
  have run: "build_indices keys ix (Suc n) = Some keys'"
    using fe built by (simp add: h_def [symmetric] keys2_def i_def)
  have msk: "DK_MASK keys2 = DK_MASK keys"
    by (simp add: DK_MASK_def f2(4))
  have "dk_indices keys2 ! unat (snd (probe (DK_MASK keys) h t)) = int ix"
    using lt by (simp add: f2(5) i_def)
  moreover have "\<forall>t' < t. dk_indices keys2 ! unat (snd (probe (DK_MASK keys) h t')) \<noteq> DKIX_EMPTY"
  proof (intro allI impI)
    fix t' assume "t' < t"
    with least have old: "dk_indices keys ! unat (snd (probe (DK_MASK keys) h t')) \<noteq> DKIX_EMPTY"
      by blast
    with cell have "unat (snd (probe (DK_MASK keys) h t')) \<noteq> i"
      by (auto simp: i_def)
    with old show "dk_indices keys2 ! unat (snd (probe (DK_MASK keys) h t')) \<noteq> DKIX_EMPTY"
      by (simp add: f2(5))
  qed
  ultimately have "reached keys2 h (int ix)"
    unfolding reached_def dk_get_index_nth msk by blast
  with kept ne have first: "reached keys' h (int ix)"
    by blast
  have all: "\<forall>p. ix \<le> p \<and> p < ix + Suc n \<longrightarrow> reached keys' (me_hash (dk_entries keys ! p)) (int p)"
  proof (intro allI impI)
    fix p assume p: "ix \<le> p \<and> p < ix + Suc n"
    show "reached keys' (me_hash (dk_entries keys ! p)) (int p)"
    proof (cases "p = ix")
      case True
      with first show ?thesis by (simp add: h_def)
    next
      case False
      with p have "Suc ix \<le> p \<and> p < Suc ix + n" by simp
      with later show ?thesis by (simp add: f2(3))
    qed
  qed
  have keep: "\<forall>h' v. v \<noteq> DKIX_EMPTY \<longrightarrow> reached keys h' v \<longrightarrow> reached keys' h' v"
  proof (intro allI impI)
    fix h' v assume v: "v \<noteq> DKIX_EMPTY" and r: "reached keys h' v"
    from r v cell ne f2(5) f2(4) have "reached keys2 h' v"
      unfolding i_def by (rule reached_update)
    with kept v show "reached keys' h' v" by blast
  qed
  from run all keep show ?case by blast
qed


lemma lookdict_ident_reached:
  assumes r: "reached keys h (int p)" and key: "me_key (dk_entries keys ! p) = key"
  shows "\<exists>r. lookdict_ident keys key h = Some r \<and> 0 \<le> r
           \<and> me_key (dk_entries keys ! nat r) = key \<and> reached keys h r"
proof -
  let ?pos = "\<lambda>t. snd (probe (DK_MASK keys) h t)"
  let ?cell = "\<lambda>t. dk_get_index keys (unat (?pos t))"
  from r obtain t0 where t0: "?cell t0 = int p"
    and before: "\<forall>t' < t0. ?cell t' \<noteq> DKIX_EMPTY"
    unfolding reached_def by blast
  have filled: "?cell t' \<noteq> DKIX_EMPTY" if "t' \<le> t0" for t'
  proof (cases "t' = t0")
    case True
    with t0 show ?thesis by (simp add: DKIX_EMPTY_def)
  next
    case False
    with that before show ?thesis by simp
  qed
  from t0 key have "ident_stop keys key (?pos t0)"
    by (simp add: ident_stop_def)
  then have "\<exists>t. ident_stop keys key (?pos t)" ..
  then have "\<exists>t. ident_stop keys key (?pos t) \<and> (\<forall>t' < t. \<not> ident_stop keys key (?pos t'))"
    by (rule exists_least_iff [THEN iffD1])
  then obtain t where t: "ident_stop keys key (?pos t)"
    and least: "\<forall>t' < t. \<not> ident_stop keys key (?pos t')"
    by blast
  from least \<open>ident_stop keys key (?pos t0)\<close> have le: "t \<le> t0"
    by (meson not_le)
  define r where "r = ?cell t"
  have run: "lookdict_ident keys key h = Some r"
    using lookdict_ident_loop_first_stop [where keys = keys and key = key
        and msk = "DK_MASK keys" and t = t and p = h and i = "h AND DK_MASK keys"] t least
    by (simp add: lookdict_ident_def Let_def probe_def r_def)
  from filled [OF le] have "r \<noteq> DKIX_EMPTY" by (simp add: r_def)
  with t have hit: "0 \<le> r" "me_key (dk_entries keys ! nat r) = key"
    by (simp_all add: ident_stop_def r_def)
  have "\<forall>t' < t. ?cell t' \<noteq> DKIX_EMPTY"
    using le filled by simp
  then have "reached keys h r"
    unfolding reached_def r_def by blast
  with run hit show ?thesis by blast
qed

lemma lookdict_index_reached:
  assumes r: "reached keys h r" and ne: "r \<noteq> DKIX_EMPTY"
  shows "\<exists>hashpos. lookdict_index keys h r = Some hashpos \<and> 0 \<le> hashpos"
proof -
  let ?pos = "\<lambda>t. snd (probe (DK_MASK keys) h t)"
  let ?cell = "\<lambda>t. dk_get_index keys (unat (?pos t))"
  from r obtain t0 where t0: "?cell t0 = r"
    and before: "\<forall>t' < t0. ?cell t' \<noteq> DKIX_EMPTY"
    unfolding reached_def by blast
  from t0 have "\<exists>t. ?cell t = r" ..
  then have "\<exists>t. ?cell t = r \<and> (\<forall>t' < t. ?cell t' \<noteq> r)"
    by (rule exists_least_iff [THEN iffD1])
  then obtain t where t: "?cell t = r" and least: "\<forall>t' < t. ?cell t' \<noteq> r"
    by blast
  have le: "t \<le> t0"
  proof (rule ccontr)
    assume "\<not> t \<le> t0"
    then have "t0 < t" by simp
    with least have "?cell t0 \<noteq> r" by blast
    with t0 show False by simp
  qed
  with before least have "\<forall>t' < t. ?cell t' \<noteq> r \<and> ?cell t' \<noteq> DKIX_EMPTY"
    by simp
  with t have "lookdict_index keys h r = Some (uint (?pos t))"
    using lookdict_index_loop_first_stop [where k = keys and index = r
        and msk = "DK_MASK keys" and t = t and p = h and i = "h AND DK_MASK keys"]
    by (simp add: lookdict_index_def Let_def probe_def)
  then show ?thesis by simp
qed

lemma resize_capacity_le:
  assumes "minused \<le> 2 ^ 64"
  obtains j where "j \<le> 64" and "resize_capacity minused = 2 ^ j"
proof -
  from resize_capacity_spec [of minused] obtain j where
    j: "resize_capacity minused = 2 ^ j"
    and least: "resize_capacity minused = 8 \<or> resize_capacity minused div 2 < minused"
    by blast
  have "j \<le> 64"
  proof (rule ccontr)
    assume "\<not> j \<le> 64"
    then have "65 \<le> j" by simp
    then have "(2::int) ^ 65 \<le> 2 ^ j"
      by (intro power_increasing) simp_all
    then have big: "(2::int) ^ 65 \<le> resize_capacity minused"
      by (simp only: j)
    then have "(2::int) ^ 65 div 2 \<le> resize_capacity minused div 2"
      by (intro zdiv_mono1) simp_all
    then have "(2::int) ^ 64 \<le> resize_capacity minused div 2"
      by simp
    with least assms big show False by simp
  qed
  then show ?thesis using j by (rule that)
qed

lemma dictresize_reached:
  assumes alloc: "new_keys_object env (resize_capacity minused) = Some a"
      and off: "0 \<le> offset"
      and fits: "offset + int (length (live_entries mp)) \<le> minused"
      and small: "offset + int (length (live_entries mp)) \<le> 2 ^ 63"
      and big: "minused \<le> 2 ^ 64"
  shows "\<exists>mp1. dictresize env mp minused offset = Some (0, mp1)
       \<and> dk_addr (ma_keys mp1) = a
       \<and> length (dk_entries (ma_keys mp1)) = nat offset + length (live_entries mp)
            + nat (USABLE_FRACTION env (resize_capacity minused)
                     - (offset + int (length (live_entries mp))))
       \<and> (\<forall>q < length (live_entries mp).
             reached (ma_keys mp1) (me_hash (live_entries mp ! q)) (offset + int q))"
proof -
  define cap where "cap = resize_capacity minused"
  define live where "live = live_entries mp"
  define keys0 where "keys0 = \<lparr>dk_addr = a, dk_size = cap,
              dk_usable = USABLE_FRACTION env cap - (offset + int (length live)),
              dk_nentries = offset + int (length live),
              dk_indices = replicate (nat cap) DKIX_EMPTY,
              dk_entries = replicate (nat offset) zero_entry @ live @
                 replicate (nat (USABLE_FRACTION env cap - (offset + int (length live)))) zero_entry\<rparr>"
  from big obtain j where j64: "j \<le> 64" and j: "cap = 2 ^ j"
    unfolding cap_def by (rule resize_capacity_le)
  from resize_capacity_spec [of minused] have capm: "minused \<le> cap"
    by (simp add: cap_def)
  have natcap: "nat cap = 2 ^ j"
    by (simp add: j nat_power_eq)
  have size0: "dk_size keys0 = 2 ^ j"
    by (simp add: keys0_def j)
  have len0: "length (dk_indices keys0) = 2 ^ j"
    by (simp add: keys0_def natcap)
  have "{c. c < length (dk_indices keys0) \<and> dk_indices keys0 ! c = DKIX_EMPTY} = {..<nat cap}"
    by (auto simp: keys0_def)
  then have card0: "card {c. c < length (dk_indices keys0) \<and> dk_indices keys0 ! c = DKIX_EMPTY} = nat cap"
    by simp
  have sum: "int (nat offset + length live) = offset + int (length live)"
    using off by simp
  have "int (length live) \<le> cap"
    using fits capm off by (simp add: live_def)
  then have n: "length live \<le> card {c. c < length (dk_indices keys0) \<and> dk_indices keys0 ! c = DKIX_EMPTY}"
    by (simp add: card0)
  have b1: "int (nat offset + length live) \<le> dk_size keys0"
    using fits capm by (simp only: sum) (simp add: keys0_def live_def)
  have b2: "int (nat offset + length live) \<le> 2 ^ 63"
    using small by (simp only: sum) (simp add: live_def)
  from build_indices_reached [OF size0 j64 len0 n b1 b2]
  obtain keys' where built: "build_indices keys0 (nat offset) (length live) = Some keys'"
    and reach: "\<forall>p. nat offset \<le> p \<and> p < nat offset + length live \<longrightarrow>
        reached keys' (me_hash (dk_entries keys0 ! p)) (int p)"
    by blast
  note fields = build_indices_fields [OF built]
  define mp1 where "mp1 = mp\<lparr>ma_keys := keys', ma_offset := offset\<rparr>"
  have run: "dictresize env mp minused offset = Some (0, mp1)"
    using alloc built
    by (simp add: dictresize_def Let_def cap_def [symmetric] live_def [symmetric]
        keys0_def [symmetric] mp1_def)
  have addr: "dk_addr (ma_keys mp1) = a"
    using fields by (simp add: mp1_def keys0_def)
  have len: "length (dk_entries (ma_keys mp1)) = nat offset + length live
            + nat (USABLE_FRACTION env cap - (offset + int (length live)))"
    using fields by (simp add: mp1_def keys0_def)
  have "\<forall>q < length live. reached (ma_keys mp1) (me_hash (live ! q)) (offset + int q)"
  proof (intro allI impI)
    fix q assume q: "q < length live"
    then have "nat offset \<le> nat offset + q \<and> nat offset + q < nat offset + length live"
      by simp
    with reach have "reached keys' (me_hash (dk_entries keys0 ! (nat offset + q))) (int (nat offset + q))"
      by blast
    moreover have "dk_entries keys0 ! (nat offset + q) = live ! q"
      using q by (simp add: keys0_def nth_append)
    moreover have "int (nat offset + q) = offset + int q"
      using off by simp
    ultimately show "reached (ma_keys mp1) (me_hash (live ! q)) (offset + int q)"
      by (simp add: mp1_def)
  qed
  with run addr len show ?thesis
    unfolding live_def cap_def by blast
qed


lemma reached_mem:
  assumes "reached keys h r" and "dk_size keys = 2 ^ k" and "length (dk_indices keys) = 2 ^ k"
  shows "r \<in> set (dk_indices keys)"
proof -
  from assms(1) obtain t where t: "dk_indices keys ! unat (snd (probe (DK_MASK keys) h t)) = r"
    unfolding reached_def dk_get_index_nth by blast
  have "unat (snd (probe (DK_MASK keys) h t)) < length (dk_indices keys)"
    using probe_pos_lt [of k h t] by (simp add: DK_MASK_pow2 [OF assms(2)] assms(3))
  with t show ?thesis by (metis nth_mem)
qed

lemma odict_ok_bounds:
  assumes "odict_ok mp"
  shows "0 \<le> ma_used mp" and "ma_used mp < 2 ^ 62" and "dk_nentries (ma_keys mp) < 2 ^ 62"
    and "0 < dk_size (ma_keys mp)" and "dk_size (ma_keys mp) \<le> 2 ^ 62"
    and "ma_used mp \<le> GROWTH_RATE mp" and "GROWTH_RATE mp < 2 ^ 63 + 2 ^ 61"
proof -
  note inv = odict_ok_facts [OF assms]
  from inv(1) obtain k where mem_k: "k \<in> set [3..<63]" and size_k: "dk_size (ma_keys mp) = 2 ^ k"
    unfolding index_table_ok_def by blast
  from mem_k have "3 \<le> k \<and> k < 63"
    by (simp only: set_upt atLeastLessThan_iff)
  then have "k \<le> 62" by simp
  then have pow62: "(2::int) ^ k \<le> 2 ^ 62"
    by (intro power_increasing) simp_all
  then show size62: "dk_size (ma_keys mp) \<le> 2 ^ 62"
    by (simp only: size_k)
  show size0: "0 < dk_size (ma_keys mp)"
    by (simp add: size_k)
  from inv(6) size62 have len62: "int (length (dk_entries (ma_keys mp))) < 2 ^ 62"
    by (rule less_le_trans)
  have "int (length (live_entries mp)) \<le> int (length (dk_entries (ma_keys mp)))"
    by (simp only: of_nat_le_iff length_live_entries)
  with len62 inv(9) show used62: "ma_used mp < 2 ^ 62"
    by simp
  show used0: "0 \<le> ma_used mp"
    by (simp add: inv(9))
  from inv(4,5) len62 show "dk_nentries (ma_keys mp) < 2 ^ 62"
    by linarith
  have half: "0 \<le> dk_size (ma_keys mp) div 2" "dk_size (ma_keys mp) div 2 \<le> 2 ^ 61"
    using size0 size62 by simp_all
  have growth: "GROWTH_RATE mp = ma_used mp * 2 + dk_size (ma_keys mp) div 2"
    by (simp add: GROWTH_RATE_def drop_bit_eq_div)
  show "ma_used mp \<le> GROWTH_RATE mp"
    unfolding growth using used0 half(1) by linarith
  show "GROWTH_RATE mp < 2 ^ 63 + 2 ^ 61"
    unfolding growth using used62 half(2) by simp
qed

lemma resize_and_find_succeeds:
  assumes ok: "odict_ok mp"
      and ix: "ix \<in> set (dk_indices (ma_keys mp))" "0 \<le> ix"
      and stored: "me_hash (dk_entries (ma_keys mp) ! nat ix) = hash"
      and alloc: "new_keys_object env (resize_capacity (GROWTH_RATE mp + offset)) = Some a"
      and off: "0 \<le> offset" "offset \<le> 2 ^ 62"
  shows "\<exists>mp1 ix1 hashpos.
       resize_and_find env mp (me_key (dk_entries (ma_keys mp) ! nat ix)) hash
         (GROWTH_RATE mp + offset) offset = Some (Inr (mp1, ix1))
     \<and> lookdict_index (ma_keys mp1) hash ix1 = Some hashpos \<and> 0 \<le> hashpos
     \<and> dk_addr (ma_keys mp1) = a
     \<and> dk_size (ma_keys mp1) = resize_capacity (GROWTH_RATE mp + offset)
     \<and> dk_nentries (ma_keys mp1) = offset + ma_used mp
     \<and> int (length (dk_entries (ma_keys mp1))) = offset + ma_used mp
          + int (nat (USABLE_FRACTION env (resize_capacity (GROWTH_RATE mp + offset))
                   - (offset + ma_used mp)))
     \<and> offset \<le> ix1 \<and> ix1 < offset + ma_used mp"
proof -
  define keys where "keys = ma_keys mp"
  define e where "e = dk_entries keys ! nat ix"
  define live where "live = live_entries mp"
  note inv = odict_ok_facts [OF ok, folded keys_def]
  note bounds = odict_ok_bounds [OF ok]
  from inv(7) [OF ix [folded keys_def]] have range: "ma_offset mp \<le> ix" "ix < dk_nentries keys"
    and live_ix: "me_value (dk_entries keys ! nat ix) \<noteq> NULL"
    by simp_all
  from inv(4,5) have "nat (dk_nentries keys) \<le> length (dk_entries keys)"
    by simp
  with range ix(2) have ix_len: "nat ix < length (dk_entries keys)"
    by simp
  have "e \<in> set (live_entries mp)"
    unfolding set_live_entries keys_def [symmetric] e_def
    using range ix(2) ix_len live_ix inv(2)
    by (intro CollectI exI [of _ "nat ix"]) simp
  then obtain q where q: "q < length live" "live ! q = e"
    unfolding live_def by (auto simp: in_set_conv_nth)
  have used: "ma_used mp = int (length live)"
    by (simp add: inv(9) live_def)
  have fits: "offset + int (length (live_entries mp)) \<le> GROWTH_RATE mp + offset"
    using bounds(6) inv(9) by linarith
  have small: "offset + int (length (live_entries mp)) \<le> 2 ^ 63"
    using bounds(2) inv(9) off(2) by simp
  have big: "GROWTH_RATE mp + offset \<le> 2 ^ 64"
    using bounds(7) off(2) by simp
  from dictresize_reached [OF alloc off(1) fits small big]
  obtain mp1 where run: "dictresize env mp (GROWTH_RATE mp + offset) offset = Some (0, mp1)"
    and addr: "dk_addr (ma_keys mp1) = a"
    and len: "length (dk_entries (ma_keys mp1)) = nat offset + length (live_entries mp)
            + nat (USABLE_FRACTION env (resize_capacity (GROWTH_RATE mp + offset))
                     - (offset + int (length (live_entries mp))))"
    and reach: "\<forall>q < length (live_entries mp).
             reached (ma_keys mp1) (me_hash (live_entries mp ! q)) (offset + int q)"
    by blast
  define keys1 where "keys1 = ma_keys mp1"
  have r0: "(0::int) \<le> 0" by simp
  note table = dictresize_table [OF run r0 off(1) fits small, folded keys1_def]
  note result = dictresize_result [OF run r0 off(1), folded keys1_def]
  from table(2) obtain j where j: "dk_size keys1 = 2 ^ j" by blast
  with table(4) have "int (length (dk_indices keys1)) = int (2 ^ j)" by simp
  then have lenj: "length (dk_indices keys1) = 2 ^ j"
    by (simp only: of_nat_eq_iff)
  from result(4) obtain pad where es1: "dk_entries keys1 =
      replicate (nat offset) zero_entry @ live_entries mp @ replicate pad zero_entry"
    by blast
  have at1: "dk_entries keys1 ! (nat offset + q) = e"
    using q by (simp add: es1 nth_append live_def)
  have pq: "offset + int q = int (nat offset + q)"
    using off(1) by simp
  from reach q(1) have "reached keys1 (me_hash (live ! q)) (offset + int q)"
    by (simp add: live_def keys1_def)
  then have "reached keys1 hash (int (nat offset + q))"
    using stored by (simp only: q(2) pq) (simp add: e_def keys_def)
  moreover have "me_key (dk_entries keys1 ! (nat offset + q)) = me_key e"
    by (simp add: at1)
  ultimately obtain ix1 where ident: "lookdict_ident keys1 (me_key e) hash = Some ix1"
    and ix1: "0 \<le> ix1" and reached1: "reached keys1 hash ix1"
    using lookdict_ident_reached by blast
  have find: "resize_and_find env mp (me_key e) hash (GROWTH_RATE mp + offset) offset
      = Some (Inr (mp1, ix1))"
    using run ident ix1 by (simp add: resize_and_find_def keys1_def)
  from ix1 have "ix1 \<noteq> DKIX_EMPTY" by (simp add: DKIX_EMPTY_def)
  with reached1 obtain hashpos where cell: "lookdict_index keys1 hash ix1 = Some hashpos"
    and hashpos: "0 \<le> hashpos"
    using lookdict_index_reached by blast
  from reached1 j lenj have "ix1 \<in> set (dk_indices keys1)"
    by (rule reached_mem)
  with table(5) ix1 have range1: "offset \<le> ix1" "ix1 < offset + ma_used mp"
    by (simp_all add: inv(9))
  have size1: "dk_size keys1 = resize_capacity (GROWTH_RATE mp + offset)"
    unfolding keys1_def using run r0 by (rule dictresize_size)
  have n1: "dk_nentries keys1 = offset + ma_used mp"
    by (simp add: result(3) inv(9))
  have len1: "int (length (dk_entries keys1)) = offset + ma_used mp
          + int (nat (USABLE_FRACTION env (resize_capacity (GROWTH_RATE mp + offset))
                   - (offset + ma_used mp)))"
    using off(1) by (simp add: len [folded keys1_def] inv(9))
  from find cell hashpos addr size1 n1 len1 range1 show ?thesis
    unfolding keys1_def e_def keys_def by blast
qed

text \<open>
  Claim C7. Let the map satisfy its invariant and let the key be present (the lookup
  finds it at entry \<open>ix\<close>, whose stored hash is the hash of the key). When the reorder
  is not a no-op and has to resize (\<^verbatim>\<open>move_to_end\<close> to the end with no usable slot
  left, or to the front with begin offset 0), the request passed to the resize is
  \<open>2*used + (old size >> 1)\<close> plus the reserved offset (the current offset, or
  \<open>used/2 + 2\<close> for a move to the front), and the capacity asked of the allocator is
  that request rounded up to a power of two with a floor of 8: it is a power of
  two, at least 8, at least the request, and the least such (it is 8, or its half
  is below the request). If the allocator has no table of that capacity the call
  fails with \<open>AllocationFailed\<close> and leaves the map as it is. If it has one, the call
  returns \<open>Ok\<close> and the map is on that table, whose size is that capacity (for a
  move to the end, the new table must have an entry slot left after the offset and
  the live entries).
\<close>

theorem resize_target_capacity:
  assumes ok: "odict_ok (od_dict od)"
      and hash: "PyObject_Hash env key \<noteq> -1"
      and found: "dk_lookup env (od_dict od) key (PyObject_Hash env key) = Some ix" "0 \<le> ix"
      and stored: "me_hash (dk_entries (ma_keys (od_dict od)) ! nat ix) = PyObject_Hash env key"
      and moved: "\<not> is_noop od ix l"
      and exhausted: "if l then dk_usable (ma_keys (od_dict od)) = 0 else ma_offset (od_dict od) = 0"
      and request: "request = ma_used (od_dict od) * 2 + dk_size (ma_keys (od_dict od)) div 2
              + (if l then ma_offset (od_dict od) else ma_used (od_dict od) div 2 + 2)"
  shows "(\<exists>j. resize_capacity request = 2 ^ j)
       \<and> 8 \<le> resize_capacity request
       \<and> request \<le> resize_capacity request
       \<and> (resize_capacity request = 8 \<or> resize_capacity request div 2 < request)
       \<and> (new_keys_object env (resize_capacity request) = None \<longrightarrow>
            OrderedDict_move_to_end_impl env od key l = Some (AllocationFailed, od))
       \<and> (\<forall>a. new_keys_object env (resize_capacity request) = Some a \<longrightarrow>
            (l \<longrightarrow> ma_offset (od_dict od) + ma_used (od_dict od)
                      < USABLE_FRACTION env (resize_capacity request)) \<longrightarrow>
            (\<exists>od'. OrderedDict_move_to_end_impl env od key l = Some (Ok, od')
               \<and> dk_addr (ma_keys (od_dict od')) = a
               \<and> dk_size (ma_keys (od_dict od')) = resize_capacity request))"
proof -
  define mp where "mp = od_dict od"
  define keys where "keys = ma_keys mp"
  define h where "h = PyObject_Hash env key"
  define key' where "key' = me_key (dk_entries keys ! nat ix)"
  define offset where "offset = (if l then ma_offset mp else ma_used mp div 2 + 2)"
  note inv = odict_ok_facts [OF ok, folded mp_def keys_def]
  note bounds = odict_ok_bounds [OF ok, folded mp_def keys_def]
  have growth: "GROWTH_RATE mp = ma_used mp * 2 + dk_size keys div 2"
    by (simp add: GROWTH_RATE_def drop_bit_eq_div keys_def)
  have req: "request = GROWTH_RATE mp + offset"
    unfolding request growth offset_def by (simp add: mp_def keys_def)
  from dk_lookup_result [OF found(1) odict_ok_facts(1) [OF ok]] found(2)
  have mem: "ix \<in> set (dk_indices keys)"
    by (auto simp: DKIX_EMPTY_def DKIX_ERROR_def keys_def mp_def)
  with inv(7) found(2) have range: "ma_offset mp \<le> ix" "ix < dk_nentries keys"
    and live_ix: "me_value (dk_entries keys ! nat ix) \<noteq> NULL"
    by auto
  from inv(4,5) have "nat (dk_nentries keys) \<le> length (dk_entries keys)"
    by simp
  with range found(2) have ix_len: "nat ix < length (dk_entries keys)"
    by simp
  have "dk_entries keys ! nat ix \<in> set (live_entries mp)"
    unfolding set_live_entries keys_def [symmetric]
    using range found(2) ix_len live_ix inv(2)
    by (intro CollectI exI [of _ "nat ix"]) simp
  then have "0 < length (live_entries mp)"
    by (rule length_pos_if_in_set)
  with inv(9) have used: "0 < ma_used mp"
    by simp
  then have nonempty: "\<not> odict_EMPTY od"
    by (simp add: odict_EMPTY_def mp_def)
  have off: "0 \<le> offset" "offset \<le> 2 ^ 62"
    using inv(2,3) bounds(2,3) used by (auto simp: offset_def)
  from moved have moved': "if l then ix \<noteq> dk_nentries keys - 1 else ix \<noteq> ma_offset mp"
    by (simp add: is_noop_def keys_def mp_def split: if_splits)
  from exhausted have exhausted': "if l then dk_usable keys = 0 else ma_offset mp = 0"
    by (simp add: keys_def mp_def split: if_splits)
  have branch: "OrderedDict_move_to_end_impl env od key l =
      (case (if l then move_to_end_last env mp key' h ix (ma_offset mp)
             else move_to_end_first env mp key' h ix (ma_offset mp)) of
         None \<Rightarrow> None
       | Some (Ok, mp') \<Rightarrow> Some (Ok, od\<lparr>od_dict := mp', od_state := od_state od + 1\<rparr>)
       | Some (e, mp') \<Rightarrow> Some (e, od\<lparr>od_dict := mp'\<rparr>))"
    using nonempty hash found moved' ix_len
    by (simp add: OrderedDict_move_to_end_impl_def Let_def DKIX_EMPTY_def DKIX_ERROR_def
        keys_def [symmetric] mp_def [symmetric] h_def [symmetric] key'_def [symmetric])
  have failed: "OrderedDict_move_to_end_impl env od key l = Some (AllocationFailed, od)"
    if none: "new_keys_object env (resize_capacity request) = None"
  proof -
    from none have "dictresize env mp (GROWTH_RATE mp + offset) offset = Some (-1, mp)"
      by (simp add: dictresize_def Let_def req)
    then have "resize_and_find env mp key' h (GROWTH_RATE mp + offset) offset = Some (Inl mp)"
      by (simp add: resize_and_find_def)
    then have "(if l then move_to_end_last env mp key' h ix (ma_offset mp)
             else move_to_end_first env mp key' h ix (ma_offset mp)) = Some (AllocationFailed, mp)"
      using exhausted'
      by (cases l) (simp_all add: move_to_end_last_def move_to_end_first_def offset_def Let_def
          keys_def [symmetric])
    then show ?thesis
      unfolding branch by (simp add: mp_def)
  qed
  have succeeded: "\<exists>od'. OrderedDict_move_to_end_impl env od key l = Some (Ok, od')
               \<and> dk_addr (ma_keys (od_dict od')) = a
               \<and> dk_size (ma_keys (od_dict od')) = resize_capacity request"
    if alloc: "new_keys_object env (resize_capacity request) = Some a"
      and room: "l \<longrightarrow> ma_offset (od_dict od) + ma_used (od_dict od)
                      < USABLE_FRACTION env (resize_capacity request)"
    for a
  proof -
    from alloc have alloc': "new_keys_object env (resize_capacity (GROWTH_RATE mp + offset)) = Some a"
      by (simp only: req)
    from resize_and_find_succeeds [OF ok [folded mp_def] mem [unfolded keys_def] found(2)
        stored [folded mp_def h_def] alloc' off]
    obtain mp1 ix1 hashpos where
      find: "resize_and_find env mp key' h (GROWTH_RATE mp + offset) offset = Some (Inr (mp1, ix1))"
      and cell: "lookdict_index (ma_keys mp1) h ix1 = Some hashpos" and hashpos: "0 \<le> hashpos"
      and addr: "dk_addr (ma_keys mp1) = a"
      and size: "dk_size (ma_keys mp1) = resize_capacity (GROWTH_RATE mp + offset)"
      and n1: "dk_nentries (ma_keys mp1) = offset + ma_used mp"
      and len1: "int (length (dk_entries (ma_keys mp1))) = offset + ma_used mp
          + int (nat (USABLE_FRACTION env (resize_capacity (GROWTH_RATE mp + offset))
                   - (offset + ma_used mp)))"
      and range1: "offset \<le> ix1" "ix1 < offset + ma_used mp"
      unfolding key'_def keys_def by blast
    have ix1_len: "nat ix1 < length (dk_entries (ma_keys mp1))"
      using range1 off(1) len1 by linarith
    show ?thesis
    proof (cases l)
      case True
      with room have "ma_offset mp + ma_used mp < USABLE_FRACTION env (resize_capacity request)"
        by (simp add: mp_def)
      with True have "offset + ma_used mp < USABLE_FRACTION env (resize_capacity (GROWTH_RATE mp + offset))"
        by (simp only: req [symmetric]) (simp add: offset_def)
      with len1 have n_len: "nat (dk_nentries (ma_keys mp1)) < length (dk_entries (ma_keys mp1))"
        using off(1) used by (simp add: n1)
      have n0: "0 \<le> dk_nentries (ma_keys mp1)"
        using off(1) used by (simp add: n1)
      have "move_to_end_last env mp key' h ix (ma_offset mp)
          = Some (Ok, relocate_to_end mp1 hashpos ix1 (ma_offset mp))"
        using True exhausted' find cell hashpos n0 n_len ix1_len
        by (simp add: move_to_end_last_def Let_def offset_def keys_def [symmetric])
      with True have "OrderedDict_move_to_end_impl env od key l =
          Some (Ok, od\<lparr>od_dict := relocate_to_end mp1 hashpos ix1 (ma_offset mp),
                       od_state := od_state od + 1\<rparr>)"
        unfolding branch by simp
      then show ?thesis
        using addr size by (simp add: relocate_to_end_fields(3) req)
    next
      case False
      have r_len: "nat (offset - 1) < length (dk_entries (ma_keys mp1))"
        using range1 off(1) len1 used by linarith
      have r0: "0 \<le> offset - 1"
        using False used by (simp add: offset_def)
      have "move_to_end_first env mp key' h ix (ma_offset mp)
          = Some (Ok, relocate_to_front mp1 hashpos ix1 (offset - 1))"
        using False exhausted' find cell hashpos r0 r_len ix1_len
        by (simp add: move_to_end_first_def Let_def offset_def keys_def [symmetric])
      with False have "OrderedDict_move_to_end_impl env od key l =
          Some (Ok, od\<lparr>od_dict := relocate_to_front mp1 hashpos ix1 (offset - 1),
                       od_state := od_state od + 1\<rparr>)"
        unfolding branch by simp
      then show ?thesis
        using addr size by (simp add: relocate_to_front_fields(3) req)
    qed
  qed
  from resize_capacity_spec [of request] failed succeeded show ?thesis
    by blast
qed


lemma od_full_ok: "odict_ok (od_dict od_full)"
  by code_simp

lemma od_full_lookup_10:
  "dk_lookup env0 (od_dict od_full) 10 (PyObject_Hash env0 10) = Some 0"
  by code_simp

lemma resize_capacity_13: "resize_capacity 13 = 16"
  by code_simp

lemma resize_capacity_14: "resize_capacity 14 = 16"
  by code_simp

theorem resize_target_capacity_witness:
  "odict_ok (od_dict od0) \<and> odict_ok (od_dict od_full)
   \<and> dk_lookup env0 (od_dict od0) 11 (PyObject_Hash env0 11) = Some 1
   \<and> dk_lookup env0 (od_dict od_full) 10 (PyObject_Hash env0 10) = Some 0
   \<and> \<not> is_noop od0 1 False \<and> ma_offset (od_dict od0) = 0
   \<and> \<not> is_noop od_full 0 True \<and> dk_usable (ma_keys (od_dict od_full)) = 0
   \<and> ma_used (od_dict od0) * 2 + dk_size (ma_keys (od_dict od0)) div 2
        + (ma_used (od_dict od0) div 2 + 2) = 13
   \<and> ma_used (od_dict od_full) * 2 + dk_size (ma_keys (od_dict od_full)) div 2
        + ma_offset (od_dict od_full) = 14
   \<and> resize_capacity 13 = 16 \<and> resize_capacity 14 = 16
   \<and> new_keys_object env0 16 = Some 2 \<and> new_keys_object env_nomem 16 = None
   \<and> OrderedDict_move_to_end_impl env0 od0 11 False \<noteq> None
   \<and> fst (the (OrderedDict_move_to_end_impl env0 od0 11 False)) = Ok
   \<and> dk_size (ma_keys (od_dict (snd (the (OrderedDict_move_to_end_impl env0 od0 11 False))))) = 16
   \<and> dk_addr (ma_keys (od_dict (snd (the (OrderedDict_move_to_end_impl env0 od0 11 False))))) = 2
   \<and> OrderedDict_move_to_end_impl env0 od_full 10 True \<noteq> None
   \<and> fst (the (OrderedDict_move_to_end_impl env0 od_full 10 True)) = Ok
   \<and> dk_size (ma_keys (od_dict (snd (the (OrderedDict_move_to_end_impl env0 od_full 10 True))))) = 16
   \<and> dk_addr (ma_keys (od_dict (snd (the (OrderedDict_move_to_end_impl env0 od_full 10 True))))) = 2
   \<and> OrderedDict_move_to_end_impl env_nomem od0 11 False = Some (AllocationFailed, od0)"
proof -
  have hash: "PyObject_Hash env0 11 \<noteq> -1" "PyObject_Hash env0 10 \<noteq> -1"
    "PyObject_Hash env_nomem 11 \<noteq> -1"
    by (simp_all add: env0_def env_nomem_def)
  have pos: "(0::int) \<le> 1" "(0::int) \<le> 0"
    by simp_all
  have stored: "me_hash (dk_entries (ma_keys (od_dict od0)) ! nat 1) = PyObject_Hash env0 11"
    "me_hash (dk_entries (ma_keys (od_dict od_full)) ! nat 0) = PyObject_Hash env0 10"
    "me_hash (dk_entries (ma_keys (od_dict od0)) ! nat 1) = PyObject_Hash env_nomem 11"
    by (simp_all add: od0_def od_full_def env0_def env_nomem_def)
  have moved: "\<not> is_noop od0 1 False" "\<not> is_noop od_full 0 True"
    by (simp_all add: is_noop_def od0_def od_full_def)
  have front: "if False then dk_usable (ma_keys (od_dict od0)) = 0 else ma_offset (od_dict od0) = 0"
    and full: "if True then dk_usable (ma_keys (od_dict od_full)) = 0
               else ma_offset (od_dict od_full) = 0"
    by (simp_all add: od0_def od_full_def)
  have req_front: "13 = ma_used (od_dict od0) * 2 + dk_size (ma_keys (od_dict od0)) div 2
              + (if False then ma_offset (od_dict od0) else ma_used (od_dict od0) div 2 + 2)"
    and req_full: "14 = ma_used (od_dict od_full) * 2 + dk_size (ma_keys (od_dict od_full)) div 2
              + (if True then ma_offset (od_dict od_full) else ma_used (od_dict od_full) div 2 + 2)"
    by (simp_all add: od0_def od_full_def)
  have alloc: "new_keys_object env0 (resize_capacity 13) = Some 2"
    "new_keys_object env0 (resize_capacity 14) = Some 2"
    "new_keys_object env_nomem (resize_capacity 13) = None"
    by (simp_all add: resize_capacity_13 resize_capacity_14 env0_def env_nomem_def)
  have room: "ma_offset (od_dict od_full) + ma_used (od_dict od_full)
      < USABLE_FRACTION env0 (resize_capacity 14)"
    by (simp add: resize_capacity_14 env0_def od_full_def)
  have lookup_nomem: "dk_lookup env_nomem (od_dict od0) 11 (PyObject_Hash env_nomem 11) = Some 1"
    by code_simp
  from resize_target_capacity [OF od0_ok hash(1) od0_lookup_11 pos(1) stored(1) moved(1) front req_front]
    alloc(1)
  obtain od1 where run1: "OrderedDict_move_to_end_impl env0 od0 11 False = Some (Ok, od1)"
    and res1: "dk_addr (ma_keys (od_dict od1)) = 2"
        "dk_size (ma_keys (od_dict od1)) = resize_capacity 13"
    by blast
  from resize_target_capacity [OF od_full_ok hash(2) od_full_lookup_10 pos(2) stored(2) moved(2) full req_full]
    alloc(2) room
  obtain od2 where run2: "OrderedDict_move_to_end_impl env0 od_full 10 True = Some (Ok, od2)"
    and res2: "dk_addr (ma_keys (od_dict od2)) = 2"
        "dk_size (ma_keys (od_dict od2)) = resize_capacity 14"
    by blast
  from resize_target_capacity [OF od0_ok hash(3) lookup_nomem pos(1) stored(3) moved(1) front req_front]
    alloc(3)
  have run3: "OrderedDict_move_to_end_impl env_nomem od0 11 False = Some (AllocationFailed, od0)"
    by blast
  have facts: "ma_offset (od_dict od0) = 0" "dk_usable (ma_keys (od_dict od_full)) = 0"
    "ma_used (od_dict od0) * 2 + dk_size (ma_keys (od_dict od0)) div 2
        + (ma_used (od_dict od0) div 2 + 2) = 13"
    "ma_used (od_dict od_full) * 2 + dk_size (ma_keys (od_dict od_full)) div 2
        + ma_offset (od_dict od_full) = 14"
    "new_keys_object env0 16 = Some 2" "new_keys_object env_nomem 16 = None"
    by (simp_all add: od0_def od_full_def env0_def env_nomem_def)
  show ?thesis
    using od0_ok od_full_ok od0_lookup_11 od_full_lookup_10 moved facts
      resize_capacity_13 resize_capacity_14 run1 res1 run2 res2 run3
    by simp
qed

end
